theory Spec2Isabelle
  imports Complex_Main "HOL-Library.Multiset" "HOL-Library.Sublist"
begin

section \<open>JavaScript strings and values\<close>

text \<open>
  A JavaScript string is modelled as a \<^typ>\<open>string\<close>; a \<^typ>\<open>char\<close> stands for one
  UTF-16 code unit below 256 (the Latin-1 range), so the model covers the strings whose
  code units all lie in that range. \<open>String.prototype.toLowerCase\<close> maps, inside
  that range, \<open>A\<close>-\<open>Z\<close> and the capital letters 192-214 and 216-222 to the letter
  32 positions further and leaves every other code unit alone.
\<close>

definition lower_char :: "char \<Rightarrow> char" where
  "lower_char c =
     (let n = (of_char c :: nat)
      in if (65 \<le> n \<and> n \<le> 90) \<or> (192 \<le> n \<and> n \<le> 214) \<or> (216 \<le> n \<and> n \<le> 222)
         then char_of (n + 32) else c)"

definition toLowerCase :: "string \<Rightarrow> string" where
  "toLowerCase s = map lower_char s"

text \<open>
  The class \<open>\s\<close> of a regular expression and the characters removed by
  \<open>String.prototype.trim\<close>: tab, line feed, vertical tab, form feed, carriage return,
  space and no-break space are its members below 256.
\<close>

definition is_space :: "char \<Rightarrow> bool" where
  "is_space c = (of_char c \<in> {9, 10, 11, 12, 13, 32, 160 :: nat})"

text \<open>\<open>trim\<close>: \<open>(str + '').replace(/^\s+|\s+$|/g, '')\<close>.\<close>

definition trim :: "string \<Rightarrow> string" where
  "trim str = rev (dropWhile is_space (rev (dropWhile is_space str)))"

text \<open>
  \<open>query.split(/ +/)\<close>: the pieces between maximal runs of the space character
  (code 32). As in JavaScript, a run at the start or at the end of the string leaves
  an empty first or last piece, and the empty string splits into one empty piece.
  The flag says that the previous character belonged to a run; \<open>cur\<close> holds the
  current piece in reverse.
\<close>

fun split_run :: "bool \<Rightarrow> string \<Rightarrow> string \<Rightarrow> string list" where
  "split_run inrun cur [] = [rev cur]"
| "split_run inrun cur (c # cs) =
     (if c = CHR '' '' then
        (if inrun then split_run True cur cs else rev cur # split_run True [] cs)
      else split_run False (c # cur) cs)"

definition split_spaces :: "string \<Rightarrow> string list" where
  "split_spaces s = split_run False [] s"

text \<open>
  \<open>escape_regex\<close>: \<open>(str + '').replace(/([.?*+^$[\]\\(){}|-])/g, '\\$1')\<close> puts a
  backslash in front of each of the listed characters.
\<close>

definition regex_special :: "string" where
  "regex_special = [CHR ''.'', CHR ''?'', CHR ''*'', CHR ''+'', CHR ''^'', CHR ''$'',
     CHR ''['', CHR '']'', CHR 0x5C, CHR ''('', CHR '')'', CHR ''{'', CHR ''}'',
     CHR ''|'', CHR ''-'']"

definition escape_char :: "char \<Rightarrow> string" where
  "escape_char c = (if c \<in> set regex_special then [CHR 0x5C, c] else [c])"

definition escape_regex :: "string \<Rightarrow> string" where
  "escape_regex str = concat (map escape_char str)"

text \<open>
  The table \<open>DIACRITICS\<close>, in the order of its keys (\<open>a\<close> to \<open>z\<close>, without \<open>m\<close>).
  Each entry is the bracket expression of the source with its members below 256;
  the members above that range cannot occur in a modelled string and match no
  character of one.
\<close>

definition DIACRITICS :: "(char \<times> string) list" where
  "DIACRITICS =
    [(CHR ''a'', ''[a'' @ [CHR 0xC2, CHR 0xE2, CHR 0xC4, CHR 0xE4, CHR 0xC0, CHR 0xE0, CHR 0xC1, CHR 0xE1, CHR 0xC3, CHR 0xE3, CHR 0xC5, CHR 0xE5, CHR 0xC3] @ '']''),
     (CHR ''b'', ''[bB]''),
     (CHR ''c'', ''[cCc'' @ [CHR 0xC7, CHR 0xE7] @ '']''),
     (CHR ''d'', ''[dDd'' @ [CHR 0xF0] @ '']''),
     (CHR ''e'', ''[e'' @ [CHR 0xC9, CHR 0xE9, CHR 0xC8, CHR 0xE8, CHR 0xCA, CHR 0xEA, CHR 0xCB, CHR 0xEB] @ '']''),
     (CHR ''f'', ''[f]''),
     (CHR ''g'', ''[g]''),
     (CHR ''h'', ''[h]''),
     (CHR ''i'', ''[i'' @ [CHR 0xCD, CHR 0xED, CHR 0xCC, CHR 0xEC, CHR 0xCE, CHR 0xEE, CHR 0xCF, CHR 0xEF] @ ''iI]''),
     (CHR ''j'', ''[j]''),
     (CHR ''k'', ''[k]''),
     (CHR ''l'', ''[l]''),
     (CHR ''n'', ''[n'' @ [CHR 0xD1, CHR 0xF1] @ ''Nn]''),
     (CHR ''o'', ''[o'' @ [CHR 0xD8, CHR 0xF8, CHR 0xD6, CHR 0xF6, CHR 0xD3, CHR 0xF3, CHR 0xD2, CHR 0xF2, CHR 0xD4, CHR 0xF4, CHR 0xD5, CHR 0xF5] @ '']''),
     (CHR ''p'', ''[p]''),
     (CHR ''q'', ''[qq]''),
     (CHR ''r'', ''[r]''),
     (CHR ''s'', ''[sSs]''),
     (CHR ''t'', ''[t]''),
     (CHR ''u'', ''[u'' @ [CHR 0xDC, CHR 0xFC, CHR 0xDA, CHR 0xFA, CHR 0xD9, CHR 0xF9, CHR 0xDB, CHR 0xFB] @ '']''),
     (CHR ''v'', ''[v]''),
     (CHR ''w'', ''[w]''),
     (CHR ''x'', ''[x]''),
     (CHR ''y'', ''[y'' @ [CHR 0xDD, CHR 0xFD, CHR 0xFF] @ '']''),
     (CHR ''z'', ''[z]'')]"

text \<open>\<open>regex.replace(new RegExp(letter, 'g'), DIACRITICS[letter])\<close>\<close>

definition replace_letter :: "char \<times> string \<Rightarrow> string \<Rightarrow> string" where
  "replace_letter e regex = concat (map (\<lambda>c. if c = fst e then snd e else [c]) regex)"

record token =
  tok_string :: string
  tok_regex :: string

text \<open>
  \<open>Sifter.prototype.tokenize\<close>. The token keeps the source text of its regular
  expression (\<open>new RegExp(regex, 'i')\<close>); the first argument is
  \<open>this.settings.diacritics\<close>.
\<close>

definition token_regex :: "bool \<Rightarrow> string \<Rightarrow> string" where
  "token_regex diacritics word =
     (if diacritics then fold replace_letter DIACRITICS (escape_regex word)
      else escape_regex word)"

definition tokenize :: "bool \<Rightarrow> string \<Rightarrow> token list" where
  "tokenize diacritics query =
     (let query = trim (toLowerCase query)
      in if query = [] then []
         else map (\<lambda>w. \<lparr>tok_string = w, tok_regex = token_regex diacritics w\<rparr>)
                  (split_spaces query))"


subsection \<open>Regular expressions of the tokenizer\<close>

text \<open>
  The regular expressions the tokenizer builds are sequences of literal characters
  (plain or escaped with a backslash) and bracket expressions. \<open>compile\<close> reads the
  source text of such an expression (\<open>new RegExp(regex, 'i')\<close>); its first argument
  holds the members, in reverse, of the bracket expression being read. Source text
  that uses any other construct (an unescaped special character, a backslash before
  an ordinary character, a range or an escape inside brackets) is outside the modelled
  fragment and yields \<open>None\<close>.
\<close>

datatype atom = Lit char | Cls string

fun compile :: "string option \<Rightarrow> string \<Rightarrow> atom list option" where
  "compile None [] = Some []"
| "compile (Some acc) [] = None"
| "compile None (c # cs) =
     (if c = CHR 0x5C then
        (case cs of
           [] \<Rightarrow> None
         | d # ds \<Rightarrow> if d \<in> set regex_special then map_option ((#) (Lit d)) (compile None ds)
                     else None)
      else if c = CHR ''['' then compile (Some []) cs
      else if c \<in> set regex_special \<and> c \<noteq> CHR ''-'' then None
      else map_option ((#) (Lit c)) (compile None cs))"
| "compile (Some acc) (c # cs) =
     (if c = CHR '']'' then map_option ((#) (Cls (rev acc))) (compile None cs)
      else if c \<in> set regex_special then None
      else compile (Some (c # acc)) cs)"

text \<open>
  Matching with the flag \<open>i\<close> compares canonical forms: \<open>Canonicalize\<close> of the
  language standard takes a code unit to its upper-case form, when that is a single
  code unit and does not move a non-ASCII code unit into ASCII. Below 256 the letters
  \<open>a\<close>-\<open>z\<close>, 224-246 and 248-254 go 32 positions down, 255 goes to 376, 181 goes to
  924, and every other code unit is its own canonical form.
\<close>

definition canonicalize :: "char \<Rightarrow> nat" where
  "canonicalize c =
     (let n = (of_char c :: nat)
      in if (97 \<le> n \<and> n \<le> 122) \<or> (224 \<le> n \<and> n \<le> 246) \<or> (248 \<le> n \<and> n \<le> 254)
         then n - 32
         else if n = 255 then 376 else if n = 181 then 924 else n)"

fun atom_matches :: "atom \<Rightarrow> char \<Rightarrow> bool" where
  "atom_matches (Lit c) v = (canonicalize c = canonicalize v)"
| "atom_matches (Cls s) v = list_ex (\<lambda>c. canonicalize c = canonicalize v) s"

fun match_here :: "atom list \<Rightarrow> string \<Rightarrow> bool" where
  "match_here [] vs = True"
| "match_here (a # as) [] = False"
| "match_here (a # as) (v # vs) = (atom_matches a v \<and> match_here as vs)"

fun search_from :: "atom list \<Rightarrow> nat \<Rightarrow> string \<Rightarrow> int" where
  "search_from as p [] = (if match_here as [] then int p else - 1)"
| "search_from as p (v # vs) =
     (if match_here as (v # vs) then int p else search_from as (Suc p) vs)"

text \<open>
  \<open>str.search(regex)\<close>: the index of the first match, or \<open>-1\<close>. Source text outside
  the modelled fragment is not interpreted and reported as \<open>-1\<close>; the tokenizer
  only produces source text inside the fragment (lemma \<open>compile_token_regex\<close>).
\<close>

definition js_search :: "string \<Rightarrow> string \<Rightarrow> int" where
  "js_search regex str =
     (case compile None regex of None \<Rightarrow> - 1 | Some as \<Rightarrow> search_from as 0 str)"

subsection \<open>Values of record fields\<close>

text \<open>
  The values a record field can hold: \<open>undefined\<close> (also the value of a missing
  field), \<open>null\<close>, booleans, integral numbers and strings. Numbers are integers whose
  string form is their decimal notation (magnitudes below \<open>10^21\<close>).
\<close>

datatype jsval = Undefined | Null | Bool bool | Num int | Str string

fun truthy :: "jsval \<Rightarrow> bool" where
  "truthy Undefined = False"
| "truthy Null = False"
| "truthy (Bool b) = b"
| "truthy (Num n) = (n \<noteq> 0)"
| "truthy (Str s) = (s \<noteq> [])"

fun digits :: "nat \<Rightarrow> string" where
  "digits n = (if n < 10 then [char_of (48 + n)] else digits (n div 10) @ [char_of (48 + n mod 10)])"

declare digits.simps [simp del]

definition string_of_int :: "int \<Rightarrow> string" where
  "string_of_int i = (if i < 0 then CHR ''-'' # digits (nat (- i)) else digits (nat i))"

text \<open>\<open>String(value)\<close>\<close>

fun to_string :: "jsval \<Rightarrow> string" where
  "to_string Undefined = ''undefined''"
| "to_string Null = ''null''"
| "to_string (Bool b) = (if b then ''true'' else ''false'')"
| "to_string (Num n) = string_of_int n"
| "to_string (Str s) = s"

text \<open>
  \<open>hash_key\<close>: \<open>null\<close> for \<open>undefined\<close> and \<open>null\<close>, \<open>'1'\<close> and \<open>'0'\<close> for the
  booleans, \<open>value + ''\<close> otherwise.
\<close>

fun hash_key :: "jsval \<Rightarrow> string option" where
  "hash_key Undefined = None"
| "hash_key Null = None"
| "hash_key (Bool b) = Some (if b then ''1'' else ''0'')"
| "hash_key v = Some (to_string v)"

text \<open>
  A record is an object with scalar fields, kept as an association list.
  \<open>getattr(obj, name, nesting)\<close> is modelled for flat records, that is with
  \<open>nesting\<close> off (the default of the control): \<open>undefined\<close> for an empty name,
  \<open>obj[name]\<close> otherwise.
\<close>

type_synonym jsobject = "(string \<times> jsval) list"

definition getattr :: "jsobject \<Rightarrow> string \<Rightarrow> jsval" where
  "getattr obj name =
     (if name = [] then Undefined
      else case map_of obj name of None \<Rightarrow> Undefined | Some v \<Rightarrow> v)"


section \<open>The search engine (sifter)\<close>

text \<open>
  The items to search are an object used as a dictionary from identifier to record;
  it is kept as an association list in the order in which \<open>for (key in this)\<close>
  enumerates it. Scores are JavaScript numbers, modelled as exact rationals.
\<close>

type_synonym corpus = "(string \<times> jsobject) list"

record sort_key =
  sk_field :: string
  sk_direction :: "string option"

record sifter_options =
  o_fields :: "string list"
  o_conjunction :: string
  o_sort :: "sort_key list option"
  o_sort_empty :: "sort_key list option"
  o_filter :: "bool option"
  o_limit :: "int option"
  o_score :: "(jsobject \<Rightarrow> rat) option"

record result_item =
  r_score :: rat
  r_id :: string

record search_object =
  s_options :: sifter_options
  s_query :: string
  s_tokens :: "token list"
  s_total :: nat
  s_items :: "result_item list"

text \<open>
  \<open>Sifter.prototype.prepareSearch\<close> for a query string. The options arrive with
  \<open>fields\<close>, \<open>sort\<close> and \<open>sort_empty\<close> as arrays, so the wrapping of scalars into
  arrays has nothing to do.
\<close>

definition prepareSearch :: "bool \<Rightarrow> string \<Rightarrow> sifter_options \<Rightarrow> search_object" where
  "prepareSearch diacritics query options =
     \<lparr>s_options = options,
      s_query = toLowerCase query,
      s_tokens = tokenize diacritics query,
      s_total = 0,
      s_items = []\<rparr>"

subsection \<open>Scoring\<close>

text \<open>\<open>scoreValue\<close> inside \<open>Sifter.prototype.getScoreFunction\<close>\<close>

definition scoreValue :: "jsval \<Rightarrow> token \<Rightarrow> rat" where
  "scoreValue value token =
     (if \<not> truthy value then 0
      else let v = to_string value;
               pos = js_search (tok_regex token) v
           in if pos = - 1 then 0
              else let score = of_nat (length (tok_string token)) / of_nat (length v)
                   in if pos = 0 then score + 1 / 2 else score)"

text \<open>\<open>scoreObject\<close>: no field, one field, or the mean over several fields.\<close>

definition scoreObject :: "string list \<Rightarrow> token \<Rightarrow> jsobject \<Rightarrow> rat" where
  "scoreObject flds token data =
     (let field_count = length flds
      in if field_count = 0 then 0
         else if field_count = 1 then scoreValue (getattr data (flds ! 0)) token
         else sum_list (map (\<lambda>f. scoreValue (getattr data f) token) flds)
                / of_nat field_count)"

text \<open>
  The loop of the conjunction \<open>and\<close>: it returns 0 at the first token whose score
  is not positive, and the sum of the scores otherwise.
\<close>

fun and_sum :: "string list \<Rightarrow> jsobject \<Rightarrow> token list \<Rightarrow> rat \<Rightarrow> rat option" where
  "and_sum flds data [] acc = Some acc"
| "and_sum flds data (t # ts) acc =
     (let score = scoreObject flds t data
      in if score \<le> 0 then None else and_sum flds data ts (acc + score))"

definition getScoreFunction :: "search_object \<Rightarrow> jsobject \<Rightarrow> rat" where
  "getScoreFunction srch data =
     (let tokens = s_tokens srch;
          flds = o_fields (s_options srch);
          token_count = length tokens
      in if token_count = 0 then 0
         else if token_count = 1 then scoreObject flds (tokens ! 0) data
         else if o_conjunction (s_options srch) = ''and'' then
           (case and_sum flds data tokens 0 of
              None \<Rightarrow> 0
            | Some acc \<Rightarrow> acc / of_nat token_count)
         else sum_list (map (\<lambda>t. scoreObject flds t data) tokens) / of_nat token_count)"

subsection \<open>Sorting\<close>

text \<open>
  \<open>asciifold\<close>: the lookup table sends every member of a bracket expression of
  \<open>DIACRITICS\<close>, except the first, to the key of the expression (a later key wins);
  the string is then put in lower case.
\<close>

definition fold_lookup :: "(char \<times> char) list" where
  "fold_lookup =
     rev (concat (map (\<lambda>(k, cls). map (\<lambda>ch. (ch, k)) (butlast (drop 2 cls))) DIACRITICS))"

definition asciifold :: "string \<Rightarrow> string" where
  "asciifold str =
     toLowerCase (map (\<lambda>c. case map_of fold_lookup c of None \<Rightarrow> c | Some k \<Rightarrow> k) str)"

text \<open>The order \<open>a < b\<close> of JavaScript strings: lexicographic on the code units.\<close>

fun str_less :: "string \<Rightarrow> string \<Rightarrow> bool" where
  "str_less [] [] = False"
| "str_less [] (y # ys) = True"
| "str_less (x # xs) [] = False"
| "str_less (x # xs) (y # ys) =
     ((of_char x :: nat) < of_char y \<or> (x = y \<and> str_less xs ys))"

text \<open>
  \<open>cmp\<close>. The sort function applies it to two values of the same sort field:
  two scores, which are numbers, for the field \<open>$score\<close>, and two field values
  otherwise.
\<close>

definition cmp_number :: "rat \<Rightarrow> rat \<Rightarrow> int" where
  "cmp_number a b = (if a > b then 1 else if a < b then - 1 else 0)"

definition fold_operand :: "jsval \<Rightarrow> string" where
  "fold_operand a = asciifold (if truthy a then to_string a else [])"

definition cmp :: "jsval \<Rightarrow> jsval \<Rightarrow> int" where
  "cmp a b =
     (case (a, b) of
        (Num x, Num y) \<Rightarrow> cmp_number (of_int x) (of_int y)
      | _ \<Rightarrow> (let a' = fold_operand a; b' = fold_operand b
              in if str_less b' a' then 1 else if str_less a' b' then - 1 else 0))"

text \<open>\<open>cmp(get_field(field, a), get_field(field, b))\<close>\<close>

definition cmp_field :: "corpus \<Rightarrow> string \<Rightarrow> result_item \<Rightarrow> result_item \<Rightarrow> int" where
  "cmp_field items name a b =
     (if name = ''$score'' then cmp_number (r_score a) (r_score b)
      else let get = (\<lambda>r. case map_of items (r_id r) of
                              None \<Rightarrow> Undefined
                            | Some obj \<Rightarrow> getattr obj name)
           in cmp (get a) (get b))"

text \<open>
  The first part of \<open>Sifter.prototype.getSortFunction\<close>: the list \<open>fields\<close> of sort
  keys it builds from the options and the query.
\<close>

fun remove_first_score :: "sort_key list \<Rightarrow> sort_key list" where
  "remove_first_score [] = []"
| "remove_first_score (k # ks) =
     (if sk_field k = ''$score'' then ks else k # remove_first_score ks)"

text \<open>\<open>sort = (!search.query && options.sort_empty) || options.sort\<close>\<close>

definition sort_option :: "search_object \<Rightarrow> sifter_options \<Rightarrow> sort_key list option" where
  "sort_option srch options =
     (if s_query srch = [] \<and> o_sort_empty options \<noteq> None then o_sort_empty options
      else o_sort options)"

definition sort_fields :: "search_object \<Rightarrow> sifter_options \<Rightarrow> sort_key list" where
  "sort_fields srch options =
     (let flds = (case sort_option srch options of
                    None \<Rightarrow> []
                  | Some keys \<Rightarrow>
                      filter (\<lambda>k. s_query srch \<noteq> [] \<or> sk_field k \<noteq> ''$score'') keys)
      in if s_query srch \<noteq> [] then
           (if list_ex (\<lambda>k. sk_field k = ''$score'') flds then flds
            else \<lparr>sk_field = ''$score'', sk_direction = Some ''desc''\<rparr> # flds)
         else remove_first_score flds)"

definition multiplier :: "sort_key \<Rightarrow> int" where
  "multiplier k = (if sk_direction k = Some ''desc'' then - 1 else 1)"

fun cmp_fields :: "corpus \<Rightarrow> sort_key list \<Rightarrow> result_item \<Rightarrow> result_item \<Rightarrow> int" where
  "cmp_fields items [] a b = 0"
| "cmp_fields items (k # ks) a b =
     (let result = multiplier k * cmp_field items (sk_field k) a b
      in if result \<noteq> 0 then result else cmp_fields items ks a b)"

text \<open>
  \<open>Sifter.prototype.getSortFunction\<close>, applied to a search object: \<open>None\<close> is the
  \<open>null\<close> it returns when there is no sort key.
\<close>

definition getSortFunction ::
    "corpus \<Rightarrow> search_object \<Rightarrow> sifter_options \<Rightarrow> (result_item \<Rightarrow> result_item \<Rightarrow> int) option" where
  "getSortFunction items srch options =
     (let flds = sort_fields srch options;
          fields_count = length flds
      in if fields_count = 0 then None
         else if fields_count = 1 then
           Some (\<lambda>a b. multiplier (flds ! 0) * cmp_field items (sk_field (flds ! 0)) a b)
         else Some (cmp_fields items flds))"

text \<open>
  \<open>Array.prototype.sort\<close> with a comparison function, modelled as a stable
  insertion sort: an element stays in front of the elements with which it compares
  as smaller or equal.
\<close>

fun insort_cmp :: "('a \<Rightarrow> 'a \<Rightarrow> int) \<Rightarrow> 'a \<Rightarrow> 'a list \<Rightarrow> 'a list" where
  "insort_cmp f x [] = [x]"
| "insort_cmp f x (y # ys) = (if f x y \<le> 0 then x # y # ys else y # insort_cmp f x ys)"

definition sort_cmp :: "('a \<Rightarrow> 'a \<Rightarrow> int) \<Rightarrow> 'a list \<Rightarrow> 'a list" where
  "sort_cmp f xs = foldr (insort_cmp f) xs []"

text \<open>\<open>items.slice(0, limit)\<close>: a negative limit counts from the end.\<close>

definition slice0 :: "int \<Rightarrow> 'a list \<Rightarrow> 'a list" where
  "slice0 limit xs =
     (if limit < 0 then take (nat (int (length xs) + limit)) xs else take (nat limit) xs)"

text \<open>
  \<open>Sifter.prototype.search\<close>. The first argument is \<open>this.settings.diacritics\<close>, the
  second \<open>this.items\<close>.
\<close>

definition search :: "bool \<Rightarrow> corpus \<Rightarrow> string \<Rightarrow> sifter_options \<Rightarrow> search_object" where
  "search diacritics items query options =
     (let srch = prepareSearch diacritics query options;
          options = s_options srch;
          query = s_query srch;
          fn_score = (case o_score options of
                        Some f \<Rightarrow> f
                      | None \<Rightarrow> getScoreFunction srch);
          found = (if query \<noteq> [] then
                     map (\<lambda>(id, item). \<lparr>r_score = fn_score item, r_id = id\<rparr>)
                       (filter (\<lambda>(id, item). o_filter options = Some False \<or> fn_score item > 0)
                          items)
                   else map (\<lambda>(id, item). \<lparr>r_score = 1, r_id = id\<rparr>) items);
          srch = srch\<lparr>s_items := found\<rparr>;
          srch = (case getSortFunction items srch options of
                    None \<Rightarrow> srch
                  | Some fn_sort \<Rightarrow> srch\<lparr>s_items := sort_cmp fn_sort (s_items srch)\<rparr>);
          srch = srch\<lparr>s_total := length (s_items srch)\<rparr>
      in case o_limit options of
           None \<Rightarrow> srch
         | Some limit \<Rightarrow> srch\<lparr>s_items := slice0 limit (s_items srch)\<rparr>)"

subsection \<open>Specification-level notions for the search engine\<close>

text \<open>
  The words of a string with respect to a class of separators: its maximal non-empty
  pieces free of separators (\<open>cur\<close> holds the current piece in reverse).
\<close>

fun words_acc :: "(char \<Rightarrow> bool) \<Rightarrow> string \<Rightarrow> string \<Rightarrow> string list" where
  "words_acc sep cur [] = (if cur = [] then [] else [rev cur])"
| "words_acc sep cur (c # cs) =
     (if sep c then (if cur = [] then words_acc sep [] cs else rev cur # words_acc sep [] cs)
      else words_acc sep (c # cur) cs)"

definition words_on :: "(char \<Rightarrow> bool) \<Rightarrow> string \<Rightarrow> string list" where
  "words_on sep s = words_acc sep [] s"

text \<open>
  What the regular expression of a token is expected to match for one character of
  the word: the character itself, or, with diacritics on and for a key of the table,
  the members of the key's bracket expression.
\<close>

definition token_atom :: "bool \<Rightarrow> char \<Rightarrow> atom" where
  "token_atom diacritics c =
     (if diacritics then
        (case map_of DIACRITICS c of None \<Rightarrow> Lit c | Some cls \<Rightarrow> Cls (butlast (tl cls)))
      else Lit c)"


text \<open>
  A field value contains the pattern of a token: the field is present (neither
  \<open>undefined\<close> nor \<open>null\<close>) and the pattern matches somewhere in its string form.
\<close>

definition contains_pattern :: "token \<Rightarrow> string \<Rightarrow> bool" where
  "contains_pattern tok s = (js_search (tok_regex tok) s \<noteq> - 1)"

definition field_contains :: "token \<Rightarrow> jsval \<Rightarrow> bool" where
  "field_contains tok v = (v \<noteq> Undefined \<and> v \<noteq> Null \<and> contains_pattern tok (to_string v))"





section \<open>The control: selection, caret and option registry\<close>

text \<open>
  The state of a control, as far as the selection logic reads and writes it. The
  model follows the JavaScript methods of \<open>TomSelect.prototype\<close> statement by statement
  and leaves out what only concerns the document: rendering of elements, CSS
  classes, element positions, the highlighted option and the set of highlighted
  items, the render cache, the validity state and the value written back to the
  original input element. The item elements inside the control mirror \<open>items\<close>
  (same values, same order), so that \<open>getItem(value)\<close> finds an element exactly
  when the value is selected. Event handlers are code of the host page: \<open>trigger\<close>
  records the event and the handlers are taken not to call back into the control.
  Item creation is off (\<open>settings.create = false\<close>, the default) and there is no
  user-defined scoring function. Values handed to the methods are strings, which
  \<open>hash_key\<close> leaves as they are.
\<close>

datatype mode = Single | Multi

record settings =
  mode :: mode
  maxItems :: "int option"
  duplicates :: bool
  persist :: bool
  controlInput :: bool
  hideSelected :: bool
  maxOptions :: "int option"
  searchField :: "string list"
  searchConjunction :: string
  sortField :: "sort_key list option"
  diacritics :: bool
  loader :: bool
  loadThrottle :: "int option"
  render_no_results :: bool
  disabledField :: string

datatype event =
    Change | ItemAdd string | ItemRemove string | ClearEvent | OptionRemove string
  | OptionClear | DropdownOpen | DropdownClose | BlurEvent

record control =
  settings :: settings
  items :: "string list"
  caretPos :: int
  options :: corpus
  userOptions :: "string set"
  loadedSearches :: "string set"
  lastQuery :: "string option"
  currentResults :: "search_object option"
  input_value :: string
  lastValue :: string
  isOpen :: bool
  isFocused :: bool
  isBlurring :: bool
  isInputHidden :: bool
  ignoreFocus :: bool
  isLocked :: bool
  isDisabled :: bool
  isSetup :: bool
  isPending :: bool
  loading :: nat
  dropdown :: "string list"
  events :: "event list"
  loadTimeout :: "string option"
  loads :: "string list"

text \<open>
  \<open>settings\<close>: \<open>loader\<close> says whether the page has supplied \<open>settings.load\<close>;
  \<open>loadThrottle\<close> is the delay in milliseconds, or \<open>null\<close>; \<open>render_no_results\<close> says
  whether the template \<open>no_results\<close> is set. \<open>control\<close>: \<open>input_value\<close> is the text of
  the input element; \<open>dropdown\<close> lists the values of the selectable option elements of
  the dropdown, as the last \<open>refreshOptions\<close> rendered them; \<open>events\<close> is the log of
  triggered events; \<open>loadTimeout\<close> is the timer of \<open>loadDebounce\<close>, with the query of the
  call that waits for it, and \<open>loads\<close> is the log of the queries with which the loader
  supplied by the page has been called.
  \<open>None\<close> stands for \<open>null\<close> and \<open>undefined\<close>. The objects \<open>options\<close>,
  \<open>userOptions\<close> and \<open>loadedSearches\<close> are used as dictionaries: \<open>options\<close> is the
  list of its entries in the order of its keys, the other two are the sets of their
  keys. The keys of \<open>options\<close> and \<open>userOptions\<close> are taken not to name a member of
  \<open>Object.prototype\<close>; for \<open>loadedSearches\<close>, whose keys are the queries typed by the user,
  such names are part of the model (see \<open>onSearchChange\<close>).
\<close>

subsection \<open>Events\<close>

definition trigger :: "event \<Rightarrow> control \<Rightarrow> control" where
  "trigger e s = s\<lparr>events := events s @ [e]\<rparr>"

text \<open>
  \<open>debounce_events(self, types, fn)\<close>: while \<open>fn\<close> runs, an event of one of the
  \<open>types\<close> is held back (the latest arguments per type are kept); the other events
  fire at once. After \<open>fn\<close> the held events fire, one per type, in the order in which
  the types were first held.
\<close>

definition first_occurrences :: "'a list \<Rightarrow> 'a list" where
  "first_occurrences xs = rev (remdups (rev xs))"

definition debounce_events :: "event list \<Rightarrow> (control \<Rightarrow> control) \<Rightarrow> control \<Rightarrow> control" where
  "debounce_events types fn s =
     (let n = length (events s);
          s' = fn s;
          fired = drop n (events s')
      in s'\<lparr>events := take n (events s')
                        @ filter (\<lambda>e. e \<notin> set types) fired
                        @ first_occurrences (filter (\<lambda>e. e \<in> set types) fired)\<rparr>)"

subsection \<open>Input element and caret\<close>

definition setTextboxValue :: "string \<Rightarrow> control \<Rightarrow> control" where
  "setTextboxValue v s =
     (if input_value s \<noteq> v then s\<lparr>input_value := v, lastValue := v\<rparr> else s)"

definition hideInput :: "control \<Rightarrow> control" where
  "hideInput s =
     (if controlInput (settings s) then s
      else (setTextboxValue [] s)\<lparr>isInputHidden := True\<rparr>)"

definition showInput :: "control \<Rightarrow> control" where
  "showInput s = (if controlInput (settings s) then s else s\<lparr>isInputHidden := False\<rparr>)"

definition inputValue :: "control \<Rightarrow> string" where
  "inputValue s = trim (input_value s)"

text \<open>
  \<open>setCaret(i)\<close>: in single mode, and with an external input element, the caret goes
  behind the last item; otherwise \<open>i\<close> is clamped with \<open>Math.max(0, Math.min(length, i))\<close>.
\<close>

definition setCaret :: "int \<Rightarrow> control \<Rightarrow> control" where
  "setCaret i s =
     (let i = (if mode (settings s) = Single \<or> controlInput (settings s)
               then int (length (items s))
               else max 0 (min (int (length (items s))) i))
      in s\<lparr>caretPos := i\<rparr>)"

text \<open>\<open>setActiveItem(null)\<close>\<close>

definition setActiveItem_null :: "control \<Rightarrow> control" where
  "setActiveItem_null s =
     (if mode (settings s) = Single then s
      else if isFocused s then showInput s else s)"

definition isFull :: "control \<Rightarrow> bool" where
  "isFull s =
     (case maxItems (settings s) of
        None \<Rightarrow> False
      | Some m \<Rightarrow> int (length (items s)) \<ge> m)"

text \<open>
  \<open>updateOriginalInput({silent: silent})\<close>: the event \<open>change\<close>, once the control is
  set up and unless silent.
\<close>

definition updateOriginalInput :: "bool \<Rightarrow> control \<Rightarrow> control" where
  "updateOriginalInput silent s = (if isSetup s \<and> \<not> silent then trigger Change s else s)"

subsection \<open>Opening and closing the dropdown\<close>

text \<open>
  \<open>focus()\<close>: the call of \<open>onFocus\<close> that it schedules with \<open>setTimeout\<close> runs after the
  current operation and is not part of it.
\<close>

definition focus :: "control \<Rightarrow> control" where
  "focus s = (if isDisabled s then s else s\<lparr>ignoreFocus := True\<rparr>)"

definition "open" :: "control \<Rightarrow> control" where
  "open s =
     (if isLocked s \<or> isOpen s \<or> (mode (settings s) = Multi \<and> isFull s) then s
      else trigger DropdownOpen ((focus s)\<lparr>isOpen := True\<rparr>))"

text \<open>
  \<open>close()\<close>, \<open>blur()\<close> and \<open>onBlur()\<close> call each other: in single mode \<open>close\<close> blurs
  the control unless a blur is under way, and \<open>onBlur\<close> closes the dropdown with
  \<open>isBlurring\<close> set. \<open>onBlur\<close> runs its local function \<open>deactivate\<close> directly, item
  creation being off.
\<close>

function close :: "control \<Rightarrow> control"
  and blur :: "control \<Rightarrow> control"
  and onBlur :: "control \<Rightarrow> control" where
  "close s =
     (let trig = isOpen s;
          s = (if mode (settings s) = Single \<and> items s \<noteq> [] then
                 (if \<not> isBlurring (hideInput s) then blur (hideInput s) else hideInput s)
               else s);
          s = s\<lparr>isOpen := False\<rparr>
      in if trig then trigger DropdownClose s else s)"
| "blur s = onBlur s"
| "onBlur s =
     (if \<not> isFocused s then s
      else let s = close (s\<lparr>isFocused := False, ignoreFocus := False, isBlurring := True\<rparr>);
               s = setActiveItem_null s;
               s = setCaret (int (length (items s))) s;
               s = s\<lparr>isBlurring := False\<rparr>
           in trigger BlurEvent s)"
  by pat_completeness auto
termination
  by (relation "measure (\<lambda>x. case x of
        Inl s \<Rightarrow> (if isBlurring (hideInput s) then 0 else 3)
      | Inr (Inl s) \<Rightarrow> 2
      | Inr (Inr s) \<Rightarrow> 1)")
     (auto simp: hideInput_def setTextboxValue_def)

declare close.simps [simp del] blur.simps [simp del] onBlur.simps [simp del]


subsection \<open>Searching and the list of options shown\<close>

text \<open>\<open>getSearchOptions()\<close>\<close>

definition getSearchOptions :: "control \<Rightarrow> sifter_options" where
  "getSearchOptions s =
     \<lparr>o_fields = searchField (settings s),
      o_conjunction = searchConjunction (settings s),
      o_sort = sortField (settings s),
      o_sort_empty = None,
      o_filter = None,
      o_limit = None,
      o_score = None\<rparr>"

text \<open>
  \<open>search(query)\<close> of the control, with the result and the new state. The search
  engine works on \<open>options\<close>. A query equal to \<open>lastQuery\<close> is answered from
  \<open>currentResults\<close>. The selected items are then spliced out of \<open>result.items\<close>,
  which is the very array that \<open>currentResults\<close> holds (a fresh result is the same
  object, a cached one a shallow copy), so the cache loses them as well. A cache that
  is empty although \<open>lastQuery\<close> is a string does not arise, since both are set
  together; the model answers it with the fresh result.
\<close>

definition control_search :: "string \<Rightarrow> control \<Rightarrow> search_object \<times> control" where
  "control_search query s =
     (let fresh = search (diacritics (settings s)) (options s) query (getSearchOptions s);
          result = (if Some query \<noteq> lastQuery s then fresh
                    else case currentResults s of None \<Rightarrow> fresh | Some r \<Rightarrow> r);
          result = (if hideSelected (settings s)
                    then result\<lparr>s_items := filter (\<lambda>r. r_id r \<notin> set (items s)) (s_items result)\<rparr>
                    else result)
      in (result, s\<lparr>lastQuery := Some query, currentResults := Some result\<rparr>))"

text \<open>
  \<open>refreshOptions(triggerDropdown)\<close>: the first \<open>n\<close> results are rendered; an option is
  selectable unless its record is disabled; the dropdown is shown when something was
  rendered or the message \<open>no_results\<close> applies.
\<close>

definition option_selectable :: "control \<Rightarrow> string \<Rightarrow> bool" where
  "option_selectable s key =
     (case map_of (options s) key of
        None \<Rightarrow> False
      | Some data \<Rightarrow> \<not> truthy (getattr data (disabledField (settings s))))"

definition refreshOptions :: "bool \<Rightarrow> control \<Rightarrow> control" where
  "refreshOptions triggerDropdown s =
     (let query = inputValue s;
          (results, s) = control_search query s;
          n = int (length (s_items results));
          n = (case maxOptions (settings s) of None \<Rightarrow> n | Some m \<Rightarrow> min n m);
          shown = take (nat n) (s_items results);
          show_dropdown = (n > 0 \<or>
             (s_items results = [] \<and> render_no_results (settings s) \<and> loading s = 0 \<and> query \<noteq> []));
          s = s\<lparr>dropdown := filter (option_selectable s) (map r_id shown)\<rparr>
      in if show_dropdown then (if triggerDropdown \<and> \<not> isOpen s then open s else s)
         else (if triggerDropdown \<and> isOpen s then close s else s))"

subsection \<open>Selection\<close>

text \<open>\<open>clear(silent)\<close>\<close>

definition clear :: "bool \<Rightarrow> control \<Rightarrow> control" where
  "clear silent s =
     (if items s = [] then s
      else let s = s\<lparr>items := [], lastQuery := None\<rparr>;
               s = setCaret 0 s;
               s = setActiveItem_null s;
               s = updateOriginalInput silent s;
               s = showInput s
           in trigger ClearEvent s)"

text \<open>
  \<open>items.splice(start, 0, value)\<close>: a negative start counts from the end, and the start
  is clamped to the array.
\<close>

definition splice_insert :: "int \<Rightarrow> 'a \<Rightarrow> 'a list \<Rightarrow> 'a list" where
  "splice_insert start x xs =
     (let n = int (length xs);
          k = nat (if start < 0 then max (n + start) 0 else min start n)
      in take k xs @ [x] @ drop k xs)"

definition insertAtCaret :: "control \<Rightarrow> control" where
  "insertAtCaret s =
     (let caret = min (caretPos s) (int (length (items s)))
      in setCaret (caret + 1) s)"

text \<open>
  The function that \<open>addItem(value, silent)\<close> hands to \<open>debounce_events\<close>, in two
  parts: the checks, and the statements from the insertion on.
\<close>

definition addItem_insert :: "string \<Rightarrow> bool \<Rightarrow> mode \<Rightarrow> control \<Rightarrow> control" where
  "addItem_insert value silent inputMode s =
     (let s = s\<lparr>items := splice_insert (caretPos s) value (items s)\<rparr>;
          s = insertAtCaret s
      in if \<not> isSetup s then s
         else let selectable = dropdown s;
                  s = (if \<not> isPending s
                       then refreshOptions (isFocused s \<and> inputMode \<noteq> Single) s
                       else s);
                  s = (if selectable = [] \<or> isFull s then close s else s);
                  s = trigger (ItemAdd value) s
              in if \<not> isPending s then updateOriginalInput silent s else s)"

definition addItem_body :: "string \<Rightarrow> bool \<Rightarrow> control \<Rightarrow> control" where
  "addItem_body value silent s =
     (let inputMode = mode (settings s);
          selected = (value \<in> set (items s));
          s = (if selected \<and> inputMode = Single then close s else s)
      in if selected \<and> (inputMode = Single \<or> \<not> duplicates (settings s)) then s
         else if map_of (options s) value = None then s
         else let s = (if inputMode = Single then clear silent s else s)
              in if inputMode = Multi \<and> isFull s then s
                 else addItem_insert value silent inputMode s)"

definition addItem :: "string \<Rightarrow> bool \<Rightarrow> control \<Rightarrow> control" where
  "addItem value silent s =
     debounce_events (if silent then [] else [Change]) (addItem_body value silent) s"

text \<open>
  \<open>removeItem(value, silent)\<close> and \<open>removeOption(value, silent)\<close> call each other: an
  item created by the user loses its option when it is removed and options do not
  persist, and a removed option is removed from the selection.
\<close>

fun index_of :: "'a \<Rightarrow> 'a list \<Rightarrow> nat" where
  "index_of x [] = 0"
| "index_of x (y # ys) = (if x = y then 0 else Suc (index_of x ys))"

function removeItem :: "string \<Rightarrow> bool \<Rightarrow> control \<Rightarrow> control"
  and removeOption :: "string \<Rightarrow> bool \<Rightarrow> control \<Rightarrow> control" where
  "removeItem value silent s =
     (if value \<notin> set (items s) then s
      else let i = index_of value (items s);
               s = s\<lparr>items := remove1 value (items s), lastQuery := None\<rparr>;
               s = (if \<not> persist (settings s) \<and> value \<in> userOptions s
                    then removeOption value silent s else s);
               s = (if int i < caretPos s then setCaret (caretPos s - 1) s else s);
               s = updateOriginalInput silent s
           in trigger (ItemRemove value) s)"
| "removeOption value silent s =
     (let s = s\<lparr>userOptions := userOptions s - {value},
                options := filter (\<lambda>(k, data). k \<noteq> value) (options s),
                lastQuery := None\<rparr>;
          s = trigger (OptionRemove value) s
      in removeItem value silent s)"
  by pat_completeness auto
termination
  by (relation "measure (\<lambda>x. case x of
        Inl (v, silent, s) \<Rightarrow> 2 * length (items s)
      | Inr (v, silent, s) \<Rightarrow> 2 * length (items s) + 1)")
     (auto simp: trigger_def length_remove1 neq_Nil_conv dest!: length_pos_if_in_set)

declare removeItem.simps [simp del] removeOption.simps [simp del]

subsection \<open>Options and the loader\<close>

text \<open>
  \<open>clearOptions()\<close>. Its loop \<open>for (key in this.options)\<close> assigns to a variable
  \<open>key\<close> that is declared nowhere, in code under \<open>'use strict'\<close>: the first assignment
  raises a \<open>ReferenceError\<close>. With no option the loop body is never entered and the
  method completes; with at least one option it stops at the loop, after it has
  emptied \<open>loadedSearches\<close> and \<open>userOptions\<close>. \<open>Inl\<close> carries the error and the state
  in which the method was left.
\<close>

datatype js_error = ReferenceError | TypeError

definition clearOptions :: "control \<Rightarrow> (js_error \<times> control) + control" where
  "clearOptions s =
     (let s = s\<lparr>loadedSearches := {}, userOptions := {}\<rparr>
      in if options s \<noteq> [] then Inl (ReferenceError, s)
         else Inr (trigger OptionClear (s\<lparr>options := [], lastQuery := None\<rparr>)))"

text \<open>
  \<open>loadedSearches\<close> is a plain object \<open>{}\<close> used as a set of strings.
  \<open>loadedSearches.hasOwnProperty(value)\<close> looks the method up on the object itself
  first: once the object has a property \<open>hasOwnProperty\<close> of its own, the value found
  is \<open>true\<close> and the call raises a \<open>TypeError\<close>. \<open>loadedSearches[value] = true\<close> adds a
  property, except for \<open>__proto__\<close>: that assignment goes to the setter that the
  object inherits from \<open>Object.prototype\<close>, which ignores a value that is neither an
  object nor \<open>null\<close>, and the object is left as it was.
\<close>

definition hasOwnProperty :: "string set \<Rightarrow> string \<Rightarrow> js_error + bool" where
  "hasOwnProperty obj key =
     (if ''hasOwnProperty'' \<in> obj then Inl TypeError else Inr (key \<in> obj))"

definition assign_true :: "string \<Rightarrow> string set \<Rightarrow> string set" where
  "assign_true key obj = (if key = ''__proto__'' then obj else insert key obj)"

text \<open>
  The constructor replaces \<open>settings.load\<close> by \<open>loadDebounce(settings.load, loadThrottle)\<close>
  when there is a loader and \<open>loadThrottle\<close> is neither \<open>null\<close> nor 0 (the default is
  300). A call of this wrapper takes 1 off \<open>loading\<close> when a timer is waiting, drops
  that timer and starts a new one. When the timer runs out, the function given to
  \<open>setTimeout\<close> clears \<open>timeout\<close> and calls the loader of the page with the arguments
  of the call that started the timer. Time itself is not modelled: the timer may
  run out between any two calls of methods (\<open>loadTimer\<close>).
\<close>

definition throttled :: "settings \<Rightarrow> bool" where
  "throttled st = (loader st \<and> loadThrottle st \<noteq> None \<and> loadThrottle st \<noteq> Some 0)"

definition loadDebounce :: "string \<Rightarrow> control \<Rightarrow> control" where
  "loadDebounce value s =
     (let s = (if loadTimeout s \<noteq> None then s\<lparr>loading := loading s - 1\<rparr> else s)
      in s\<lparr>loadTimeout := Some value\<rparr>)"

definition loadTimer :: "control \<Rightarrow> control" where
  "loadTimer s =
     (case loadTimeout s of
        None \<Rightarrow> s
      | Some value \<Rightarrow> s\<lparr>loadTimeout := None, loads := loads s @ [value]\<rparr>)"

text \<open>\<open>settings.load.apply(self, [value, callback])\<close>\<close>

definition settings_load :: "string \<Rightarrow> control \<Rightarrow> control" where
  "settings_load value s =
     (if throttled (settings s) then loadDebounce value s
      else s\<lparr>loads := loads s @ [value]\<rparr>)"

text \<open>\<open>load(fn)\<close>, for the function that \<open>onSearchChange(value)\<close> hands to it.\<close>

definition load :: "string \<Rightarrow> control \<Rightarrow> control" where
  "load value s = settings_load value (s\<lparr>loading := loading s + 1\<rparr>)"

text \<open>
  \<open>onSearchChange(value)\<close>. \<open>Inl\<close> carries the error and the state in which the method
  was left.
\<close>

definition onSearchChange :: "string \<Rightarrow> control \<Rightarrow> (js_error \<times> control) + control" where
  "onSearchChange value s =
     (if \<not> loader (settings s) then Inr s
      else case hasOwnProperty (loadedSearches s) value of
             Inl e \<Rightarrow> Inl (e, s)
           | Inr True \<Rightarrow> Inr s
           | Inr False \<Rightarrow>
               Inr (load value (s\<lparr>loadedSearches := assign_true value (loadedSearches s)\<rparr>)))"

subsection \<open>Sequences of operations\<close>

datatype operation =
    AddItem string bool
  | RemoveItem string bool
  | Clear bool
  | SetCaret int
  | RemoveOption string bool
  | SearchChange string
  | ClearOptions
  | LoadTimer

text \<open>
  One call of a method, or the timer of \<open>loadDebounce\<close> running out. An error raised
  by \<open>clearOptions\<close> or \<open>onSearchChange\<close> goes to the caller; the control stays in
  the state in which the method was left.
\<close>

fun step :: "operation \<Rightarrow> control \<Rightarrow> control" where
  "step (AddItem v silent) s = addItem v silent s"
| "step (RemoveItem v silent) s = removeItem v silent s"
| "step (Clear silent) s = clear silent s"
| "step (SetCaret i) s = setCaret i s"
| "step (RemoveOption v silent) s = removeOption v silent s"
| "step (SearchChange q) s = (case onSearchChange q s of Inl (e, s') \<Rightarrow> s' | Inr s' \<Rightarrow> s')"
| "step ClearOptions s = (case clearOptions s of Inl (e, s') \<Rightarrow> s' | Inr s' \<Rightarrow> s')"
| "step LoadTimer s = loadTimer s"

fun run :: "operation list \<Rightarrow> control \<Rightarrow> control" where
  "run [] s = s"
| "run (x # xs) s = run xs (step x s)"


subsection \<open>Invariants and frame conditions\<close>

text \<open>The caret invariant: \<open>0 <= caretPos <= items.length\<close>.\<close>

definition caret_ok :: "control \<Rightarrow> bool" where
  "caret_ok s = (0 \<le> caretPos s \<and> caretPos s \<le> int (length (items s)))"

text \<open>The keys of the option map.\<close>

definition option_keys :: "control \<Rightarrow> string set" where
  "option_keys s = fst ` set (options s)"

text \<open>
  What the methods that only open, close, focus and blur the control leave alone:
  the settings, the selection, the options, the loader's records and the result
  cache; they move the caret at most behind the last item.
\<close>

definition ui_frame :: "control \<Rightarrow> control \<Rightarrow> bool" where
  "ui_frame s s' =
     (settings s' = settings s \<and> items s' = items s \<and> options s' = options s
      \<and> userOptions s' = userOptions s \<and> loadedSearches s' = loadedSearches s
      \<and> loads s' = loads s \<and> loading s' = loading s
      \<and> lastQuery s' = lastQuery s \<and> currentResults s' = currentResults s
      \<and> dropdown s' = dropdown s \<and> isSetup s' = isSetup s \<and> isPending s' = isPending s
      \<and> isLocked s' = isLocked s \<and> isDisabled s' = isDisabled s
      \<and> loadTimeout s' = loadTimeout s
      \<and> (caretPos s' = caretPos s \<or> caretPos s' = int (length (items s))))"

text \<open>The same, for methods that may also run a search and render the options.\<close>

definition refresh_frame :: "control \<Rightarrow> control \<Rightarrow> bool" where
  "refresh_frame s s' =
     (settings s' = settings s \<and> items s' = items s \<and> options s' = options s
      \<and> userOptions s' = userOptions s \<and> loadedSearches s' = loadedSearches s
      \<and> loads s' = loads s \<and> loading s' = loading s
      \<and> isSetup s' = isSetup s \<and> isPending s' = isPending s
      \<and> isLocked s' = isLocked s \<and> isDisabled s' = isDisabled s
      \<and> loadTimeout s' = loadTimeout s
      \<and> (caretPos s' = caretPos s \<or> caretPos s' = int (length (items s))))"

text \<open>
  How often the loader of the page has been called with a query, counting a call
  that waits for the timer of \<open>loadDebounce\<close>.
\<close>

definition loader_calls :: "string \<Rightarrow> control \<Rightarrow> nat" where
  "loader_calls q s =
     length (filter ((=) q) (loads s)) + (if loadTimeout s = Some q then 1 else 0)"

section \<open>Sample data\<close>

text \<open>A small corpus and option sets, used to instantiate the theorems below.\<close>

definition witness_options :: "sort_key list \<Rightarrow> sifter_options" where
  "witness_options ks =
     \<lparr>o_fields = [''text''], o_conjunction = ''and'', o_sort = Some ks, o_sort_empty = None,
      o_filter = None, o_limit = None, o_score = None\<rparr>"



text \<open>
  A control that is set up, with the default settings and a loader, two registered
  options and nothing selected.
\<close>

definition sample_settings :: "mode \<Rightarrow> settings" where
  "sample_settings m =
     \<lparr>mode = m, maxItems = (if m = Single then Some 1 else None), duplicates = False,
      persist = True, controlInput = False, hideSelected = (m = Multi),
      maxOptions = Some 1000, searchField = [''text''], searchConjunction = ''and'',
      sortField = Some [\<lparr>sk_field = ''$order'', sk_direction = None\<rparr>], diacritics = True,
      loader = True, loadThrottle = Some 300, render_no_results = True, disabledField = ''disabled''\<rparr>"

definition sample_control :: "mode \<Rightarrow> control" where
  "sample_control m =
     \<lparr>settings = sample_settings m, items = [], caretPos = 0,
      options = [(''a'', [(''value'', Str ''a''), (''text'', Str ''Apple''), (''$order'', Num 1)]),
                 (''b'', [(''value'', Str ''b''), (''text'', Str ''Banana''), (''$order'', Num 2)])],
      userOptions = {}, loadedSearches = {}, lastQuery = None, currentResults = None,
      input_value = [], lastValue = [], isOpen = False, isFocused = False,
      isBlurring = False, isInputHidden = False, ignoreFocus = False, isLocked = False,
      isDisabled = False, isSetup = True, isPending = False, loading = 0, dropdown = [],
      events = [], loadTimeout = None, loads = []\<rparr>"

text \<open>
  The same control in multi mode after the user has typed \<open>ap\<close>, the handler has
  recorded this query and the option \<open>a\<close> has been selected.
\<close>

definition sample_selected :: control where
  "sample_selected =
     (sample_control Multi)\<lparr>items := [''a''], caretPos := 1, loadedSearches := {''ap''},
        lastQuery := Some ''ap'', input_value := ''ap'', lastValue := ''ap''\<rparr>"

section \<open>Properties of the tokenizer\<close>

lemma split_run_words:
  "((s = [] \<or> last s \<noteq> CHR '' '') \<and> (cur \<noteq> [] \<or> (s \<noteq> [] \<and> hd s \<noteq> CHR '' ''))
      \<longrightarrow> split_run False cur s = words_acc (\<lambda>c. c = CHR '' '') cur s)
   \<and> (s \<noteq> [] \<and> last s \<noteq> CHR '' ''
      \<longrightarrow> split_run True [] s = words_acc (\<lambda>c. c = CHR '' '') [] s)"
proof (induction s arbitrary: cur)
  case Nil
  show ?case by simp
next
  case (Cons c cs)
  show ?case
  proof (cases "c = CHR '' ''")
    case True
    have ih: "cs \<noteq> [] \<and> last cs \<noteq> CHR '' '' \<Longrightarrow>
        split_run True [] cs = words_acc (\<lambda>c. c = CHR '' '') [] cs"
      using Cons.IH [of "[]"] by blast
    show ?thesis using True ih by (auto split: if_splits)
  next
    case False
    have ih: "cs = [] \<or> last cs \<noteq> CHR '' '' \<Longrightarrow>
        split_run False (c # cur') cs = words_acc (\<lambda>c. c = CHR '' '') (c # cur') cs" for cur'
      using Cons.IH [of "c # cur'"] by blast
    show ?thesis using False ih by (auto split: if_splits)
  qed
qed

lemma trim_ends:
  "trim s = [] \<or> (\<not> is_space (hd (trim s)) \<and> \<not> is_space (last (trim s)))"
proof (cases "trim s = []")
  case True
  then show ?thesis by simp
next
  case False
  define u where "u = dropWhile is_space s"
  define v where "v = dropWhile is_space (rev u)"
  have t: "trim s = rev v" by (simp add: trim_def u_def v_def)
  have v: "v \<noteq> []" using False t by simp
  then have hv: "\<not> is_space (hd v)" unfolding v_def by (rule hd_dropWhile)
  have "rev u \<noteq> []" using v v_def by auto
  then have u: "u \<noteq> []" by simp
  then have hu: "\<not> is_space (hd u)" unfolding u_def by (rule hd_dropWhile)
  obtain pre where pre: "rev u = pre @ v"
    unfolding v_def by (metis takeWhile_dropWhile_id)
  have "last v = last (rev u)" using pre v by simp
  also have "\<dots> = hd u" using u by (simp add: last_rev)
  finally have lv: "\<not> is_space (last v)" using hu by simp
  show ?thesis using t v hv lv by (simp add: hd_rev last_rev)
qed

lemma trim_Nil_iff: "trim s = [] \<longleftrightarrow> list_all is_space s"
proof -
  define u where "u = dropWhile is_space s"
  have a: "trim s = [] \<longleftrightarrow> (\<forall>x \<in> set u. is_space x)"
    by (simp add: trim_def u_def dropWhile_eq_Nil_conv)
  have b: "(\<forall>x \<in> set u. is_space x) \<longleftrightarrow> u = []"
  proof
    assume h: "\<forall>x \<in> set u. is_space x"
    show "u = []"
    proof (rule ccontr)
      assume "u \<noteq> []"
      then have "\<not> is_space (hd u)" "hd u \<in> set u"
        using hd_dropWhile [of is_space s] hd_in_set [of u] by (simp_all add: u_def)
      with h show False by blast
    qed
  qed simp
  show ?thesis using a b by (simp add: u_def dropWhile_eq_Nil_conv list_all_iff)
qed

lemma is_space_lower: "is_space (lower_char c) = is_space c"
proof -
  have "of_char c < (256 :: nat)" by simp
  then show ?thesis
    unfolding is_space_def lower_char_def Let_def
    by (auto simp: of_char_of)
qed

lemma compile_escape_char:
  "compile None (escape_char c @ r) = map_option ((#) (Lit c)) (compile None r)"
  by (auto simp: escape_char_def regex_special_def)

lemma replace_letter_append:
  "replace_letter e (xs @ ys) = replace_letter e xs @ replace_letter e ys"
  by (simp add: replace_letter_def)

lemma fold_replace_append:
  "fold replace_letter tab (xs @ ys) = fold replace_letter tab xs @ fold replace_letter tab ys"
  by (induction tab arbitrary: xs ys) (simp_all add: replace_letter_append)

lemma fold_replace_Nil: "fold replace_letter tab [] = []"
  by (induction tab) (simp_all add: replace_letter_def)

lemma replace_letter_id: "fst e \<notin> set xs \<Longrightarrow> replace_letter e xs = xs"
  by (induction xs) (auto simp: replace_letter_def)

lemma fold_replace_id:
  "\<forall>e \<in> set tab. fst e \<notin> set xs \<Longrightarrow> fold replace_letter tab xs = xs"
  by (induction tab) (simp_all add: replace_letter_id)

lemma keys_not_special: "c \<in> set (map fst DIACRITICS) \<Longrightarrow> c \<notin> set regex_special"
  by (auto simp: DIACRITICS_def regex_special_def)

lemma backslash_not_key: "CHR 0x5C \<notin> set (map fst DIACRITICS)"
  by (simp add: DIACRITICS_def)


lemma fold_replace_key:
  "distinct (map fst tab) \<Longrightarrow> map_of tab c = Some cls \<Longrightarrow>
   (\<forall>e \<in> set tab. fst e \<in> set cls \<longrightarrow> fst e = c) \<Longrightarrow>
   fold replace_letter tab [c] = cls"
proof (induction tab)
  case Nil
  then show ?case by simp
next
  case (Cons e tab)
  show ?case
  proof (cases "fst e = c")
    case True
    then have cls: "snd e = cls" using Cons.prems(2) by (cases e) simp
    have "\<forall>e' \<in> set tab. fst e' \<notin> set cls"
      using Cons.prems(1,3) True by (metis distinct.simps(2) image_eqI list.set_intros(2) list.simps(9) set_map)
    then have "fold replace_letter tab cls = cls" by (rule fold_replace_id)
    moreover have "replace_letter e [c] = cls" using True cls by (simp add: replace_letter_def)
    ultimately show ?thesis by simp
  next
    case False
    then have "map_of tab c = Some cls" using Cons.prems(2) by (cases e) (simp split: if_splits)
    then have "fold replace_letter tab [c] = cls"
      using Cons.IH Cons.prems(1,3) by simp
    moreover have "replace_letter e [c] = [c]" using False by (simp add: replace_letter_def)
    ultimately show ?thesis by simp
  qed
qed

lemma diacritics_distinct: "distinct (map fst DIACRITICS)"
  by (simp add: DIACRITICS_def)

lemma diacritics_closed:
  "list_all (\<lambda>(c, cls). list_all (\<lambda>e. fst e \<in> set cls \<longrightarrow> fst e = c) DIACRITICS) DIACRITICS"
  by (simp add: DIACRITICS_def)

lemma diacritics_shape:
  "list_all (\<lambda>(c, cls). 2 \<le> length cls \<and> hd cls = CHR ''['' \<and> last cls = CHR '']''
      \<and> list_all (\<lambda>x. x \<notin> set regex_special) (butlast (tl cls))) DIACRITICS"
  by (simp add: DIACRITICS_def regex_special_def)

lemma compile_class:
  "\<forall>x \<in> set ms. x \<notin> set regex_special \<Longrightarrow>
   compile (Some acc) (ms @ CHR '']'' # r) = map_option ((#) (Cls (rev acc @ ms))) (compile None r)"
  by (induction ms arbitrary: acc) (auto simp: regex_special_def)

lemma expand_key:
  assumes "map_of DIACRITICS c = Some cls"
  shows "fold replace_letter DIACRITICS [c] = cls"
    and "compile None (cls @ r) = map_option ((#) (Cls (butlast (tl cls)))) (compile None r)"
proof -
  have mem: "(c, cls) \<in> set DIACRITICS" using assms by (rule map_of_SomeD)
  have "\<forall>e \<in> set DIACRITICS. fst e \<in> set cls \<longrightarrow> fst e = c"
    using diacritics_closed mem by (auto simp: list_all_iff)
  then show "fold replace_letter DIACRITICS [c] = cls"
    using fold_replace_key [OF diacritics_distinct assms] by blast
  have sh: "2 \<le> length cls" "hd cls = CHR ''[''" "last cls = CHR '']''"
      "\<forall>x \<in> set (butlast (tl cls)). x \<notin> set regex_special"
    using diacritics_shape mem by (auto simp: list_all_iff)
  then obtain ms where cls: "cls = CHR ''['' # ms @ [CHR '']'']"
    by (cases cls; cases "tl cls" rule: rev_cases) auto
  have "compile None (cls @ r) = compile (Some []) (ms @ CHR '']'' # r)"
    by (simp add: cls)
  also have "\<dots> = map_option ((#) (Cls ms)) (compile None r)"
    using sh(4) compile_class [of ms "[]" r] by (simp add: cls)
  finally show "compile None (cls @ r) = map_option ((#) (Cls (butlast (tl cls)))) (compile None r)"
    by (simp add: cls)
qed

lemma compile_expand:
  "compile None (fold replace_letter DIACRITICS (escape_char c) @ r)
     = map_option ((#) (token_atom True c)) (compile None r)"
proof (cases "map_of DIACRITICS c")
  case None
  then have nk: "c \<notin> set (map fst DIACRITICS)" by (simp add: map_of_eq_None_iff)
  have "\<forall>e \<in> set DIACRITICS. fst e \<noteq> c \<and> fst e \<noteq> CHR 0x5C"
    using nk backslash_not_key by (metis image_eqI set_map)
  then have "\<forall>e \<in> set DIACRITICS. fst e \<notin> set (escape_char c)"
    by (simp add: escape_char_def)
  then have "fold replace_letter DIACRITICS (escape_char c) = escape_char c"
    by (rule fold_replace_id)
  then show ?thesis using None by (simp add: compile_escape_char token_atom_def)
next
  case (Some cls)
  then have "c \<in> set (map fst DIACRITICS)" by (metis map_of_eq_None_iff option.distinct(1) set_map)
  then have "escape_char c = [c]" using keys_not_special by (simp add: escape_char_def)
  then show ?thesis using expand_key [OF Some] Some by (simp add: token_atom_def)
qed

lemma compile_token_regex_app:
  "compile None (token_regex d w @ r) = map_option ((@) (map (token_atom d) w)) (compile None r)"
proof (induction w)
  case Nil
  show ?case by (simp add: token_regex_def escape_regex_def fold_replace_Nil option.map_ident)
next
  case (Cons c w)
  show ?case
  proof (cases d)
    case True
    have "token_regex True (c # w) = fold replace_letter DIACRITICS (escape_char c) @ token_regex True w"
      by (simp add: token_regex_def escape_regex_def fold_replace_append)
    then show ?thesis using Cons True
      by (simp add: compile_expand option.map_comp comp_def)
  next
    case False
    have "token_regex False (c # w) = escape_char c @ token_regex False w"
      by (simp add: token_regex_def escape_regex_def)
    then show ?thesis using Cons False
      by (simp add: compile_escape_char option.map_comp comp_def token_atom_def)
  qed
qed

lemma compile_token_regex: "compile None (token_regex d w) = Some (map (token_atom d) w)"
  using compile_token_regex_app [of d w "[]"] by simp

lemma tokenize_strings:
  "map tok_string (tokenize d q) = words_on (\<lambda>c. c = CHR '' '') (trim (toLowerCase q))"
proof (cases "trim (toLowerCase q) = []")
  case True
  then show ?thesis by (simp add: tokenize_def words_on_def)
next
  case False
  define t where "t = trim (toLowerCase q)"
  have e: "\<not> is_space (hd t)" "\<not> is_space (last t)" "t \<noteq> []"
    using trim_ends [of "toLowerCase q"] False by (simp_all add: t_def)
  have "hd t \<noteq> CHR '' ''" "last t \<noteq> CHR '' ''"
    using e by (auto simp: is_space_def)
  then have "split_run False [] t = words_acc (\<lambda>c. c = CHR '' '') [] t"
    using split_run_words [of t "[]"] e(3) by blast
  then show ?thesis
    using False by (simp add: tokenize_def t_def words_on_def split_spaces_def comp_def)
qed

lemma tokenize_regex:
  "t \<in> set (tokenize d q) \<Longrightarrow> tok_regex t = token_regex d (tok_string t)"
  by (auto simp: tokenize_def Let_def split: if_splits)

lemma split_run_not_Nil: "split_run inrun cur s \<noteq> []"
  by (induction s arbitrary: inrun cur) auto

lemma tokenize_Nil_iff: "tokenize d q = [] \<longleftrightarrow> list_all is_space q"
proof -
  have "list_all is_space (toLowerCase q) = list_all is_space q"
    by (simp add: toLowerCase_def list_all_iff is_space_lower)
  then show ?thesis
    by (simp add: tokenize_def Let_def trim_Nil_iff split_spaces_def split_run_not_Nil)
qed

text \<open>
  C6, as amended. The strings of the tokens are the words of the lower-cased, trimmed
  query with respect to the space character (code 32) alone, one token per word; the
  regular expression of a token is the escaped word (with the bracket expressions of
  the table when diacritics are on) and it reads as one literal character, or one
  bracket expression, per character of the word; the token list is empty exactly for
  the queries that consist of white space only (the empty query among them).
\<close>

theorem tokenize_words:
  "map tok_string (tokenize d q) = words_on (\<lambda>c. c = CHR '' '') (trim (toLowerCase q))
   \<and> (\<forall>t \<in> set (tokenize d q).
         tok_regex t = token_regex d (tok_string t)
         \<and> compile None (tok_regex t) = Some (map (token_atom d) (tok_string t)))
   \<and> (tokenize d q = [] \<longleftrightarrow> list_all is_space q)"
  by (simp add: tokenize_strings tokenize_regex compile_token_regex tokenize_Nil_iff)

theorem tokenize_words_witness:
  "map tok_string (tokenize True '' Ab  c.d '') = [''ab'', ''c.d'']
   \<and> list_all (\<lambda>t. compile None (tok_regex t) = Some (map (token_atom True) (tok_string t)))
        (tokenize True '' Ab  c.d '')
   \<and> tokenize True [CHR 0x09, CHR '' ''] = []"
proof -
  have a: "words_on (\<lambda>c. c = CHR '' '') (trim (toLowerCase '' Ab  c.d '')) = [''ab'', ''c.d'']"
    by code_simp
  have b: "list_all is_space [CHR 0x09, CHR '' '']"
    by code_simp
  note w = tokenize_words [of True "'' Ab  c.d ''"]
  have 1: "map tok_string (tokenize True '' Ab  c.d '') = [''ab'', ''c.d'']"
    using w a by simp
  have 2: "list_all (\<lambda>t. compile None (tok_regex t) = Some (map (token_atom True) (tok_string t)))
        (tokenize True '' Ab  c.d '')"
    unfolding list_all_iff using w by blast
  have 3: "tokenize True [CHR 0x09, CHR '' ''] = []"
    using tokenize_words [of True "[CHR 0x09, CHR '' '']"] b by blast
  show ?thesis using 1 2 3 by (intro conjI)
qed

text \<open>
  C6 as stated, with the words taken with respect to all white space, fails for a
  query with a tab between two letters: the tokenizer keeps it as one word.
\<close>

theorem tokenize_whitespace_counterexample:
  "map tok_string (tokenize False [CHR ''a'', CHR 0x09, CHR ''b'']) = [[CHR ''a'', CHR 0x09, CHR ''b'']]
   \<and> words_on is_space (trim (toLowerCase [CHR ''a'', CHR 0x09, CHR ''b''])) = [''a'', ''b'']"
  by code_simp

section \<open>Properties of the sort function and of the search\<close>





lemma sort_fields_items [simp]:
  "sort_fields (srch\<lparr>s_items := xs\<rparr>) opts = sort_fields srch opts"
  by (simp add: sort_fields_def sort_option_def Let_def cong: option.case_cong)














lemma sort_cmp_Nil [simp]: "sort_cmp f [] = []"
  by (simp add: sort_cmp_def)









section \<open>Properties of the scorer\<close>

lemma match_here_iff:
  "match_here as s \<longleftrightarrow> (\<exists>mid post. s = mid @ post \<and> list_all2 atom_matches as mid)"
proof (induction as s rule: match_here.induct)
  case (1 vs)
  show ?case by simp
next
  case (2 a as)
  show ?case by simp
next
  case (3 a as v vs)
  show ?case
  proof
    assume "match_here (a # as) (v # vs)"
    then obtain mid post where "atom_matches a v" "vs = mid @ post" "list_all2 atom_matches as mid"
      using 3 by auto
    then have "v # vs = (v # mid) @ post \<and> list_all2 atom_matches (a # as) (v # mid)" by simp
    then show "\<exists>mid post. v # vs = mid @ post \<and> list_all2 atom_matches (a # as) mid" by blast
  next
    assume "\<exists>mid post. v # vs = mid @ post \<and> list_all2 atom_matches (a # as) mid"
    then obtain mid post where m: "v # vs = mid @ post" "list_all2 atom_matches (a # as) mid" by blast
    then obtain m ms where mm: "mid = m # ms" "atom_matches a m" "list_all2 atom_matches as ms"
      by (auto simp: list_all2_Cons1)
    then have "m = v" "vs = ms @ post" using m(1) by auto
    then show "match_here (a # as) (v # vs)" using mm 3 by auto
  qed
qed

lemma search_from_range: "search_from as p s = - 1 \<or> int p \<le> search_from as p s"
  by (induction s arbitrary: p) (auto, force)

lemma search_from_start: "search_from as p s = int p \<longleftrightarrow> match_here as s"
proof (cases s)
  case Nil
  then show ?thesis by simp
next
  case (Cons v vs)
  have "search_from as (Suc p) vs \<noteq> int p"
    using search_from_range [of as "Suc p" vs] by auto
  then show ?thesis using Cons by simp
qed

lemma search_from_found:
  "search_from as p s \<noteq> - 1 \<longleftrightarrow> (\<exists>pre rest. s = pre @ rest \<and> match_here as rest)"
proof (induction s arbitrary: p)
  case Nil
  show ?case by simp
next
  case (Cons v vs)
  show ?case
  proof (cases "match_here as (v # vs)")
    case True
    then have "\<exists>pre rest. v # vs = pre @ rest \<and> match_here as rest"
      by (metis append_Nil)
    then show ?thesis using True by simp
  next
    case False
    have "(\<exists>pre rest. v # vs = pre @ rest \<and> match_here as rest)
        \<longleftrightarrow> (\<exists>pre rest. vs = pre @ rest \<and> match_here as rest)"
    proof
      assume "\<exists>pre rest. v # vs = pre @ rest \<and> match_here as rest"
      then obtain pre rest where pr: "v # vs = pre @ rest" "match_here as rest" by blast
      then have "pre \<noteq> []" using False by auto
      then obtain pre' where "pre = v # pre'" using pr(1) by (cases pre) auto
      then show "\<exists>pre rest. vs = pre @ rest \<and> match_here as rest" using pr by auto
    next
      assume "\<exists>pre rest. vs = pre @ rest \<and> match_here as rest"
      then obtain pre rest where "vs = pre @ rest" "match_here as rest" by blast
      then have "v # vs = (v # pre) @ rest \<and> match_here as rest" by simp
      then show "\<exists>pre rest. v # vs = pre @ rest \<and> match_here as rest" by blast
    qed
    then show ?thesis using False Cons.IH [of "Suc p"] by simp
  qed
qed

text \<open>
  What containing the pattern of a token means: some piece of the string matches the
  word of the token character by character (see \<open>token_atom\<close>, \<open>atom_matches\<close>).
\<close>

lemma contains_pattern_iff:
  assumes "tok_regex tok = token_regex d (tok_string tok)"
  shows "contains_pattern tok s \<longleftrightarrow>
           (\<exists>pre mid post. s = pre @ mid @ post
              \<and> list_all2 atom_matches (map (token_atom d) (tok_string tok)) mid)"
  unfolding contains_pattern_def js_search_def assms compile_token_regex
  by (simp add: search_from_found match_here_iff) blast

lemma js_search_start:
  assumes "tok_regex tok = token_regex d (tok_string tok)"
  shows "js_search (tok_regex tok) s = 0 \<longleftrightarrow>
           (\<exists>mid post. s = mid @ post
              \<and> list_all2 atom_matches (map (token_atom d) (tok_string tok)) mid)"
  unfolding js_search_def assms compile_token_regex
  using search_from_start [of _ 0 s] by (simp add: match_here_iff)

lemma digits_not_Nil: "digits n \<noteq> []"
  by (subst digits.simps) simp

lemma truthy_to_string: "truthy v \<Longrightarrow> to_string v \<noteq> []"
  by (cases v) (auto simp: string_of_int_def digits_not_Nil)

lemma scoreValue_eq:
  "scoreValue v tok =
     (if truthy v \<and> contains_pattern tok (to_string v)
      then of_nat (length (tok_string tok)) / of_nat (length (to_string v))
           + (if js_search (tok_regex tok) (to_string v) = 0 then 1 / 2 else 0)
      else 0)"
  by (simp add: scoreValue_def contains_pattern_def Let_def)

lemma scoreValue_nonneg: "0 \<le> scoreValue v tok"
  by (simp add: scoreValue_eq)

lemma scoreValue_zero_iff:
  assumes "tok_string tok \<noteq> []"
  shows "scoreValue v tok = 0 \<longleftrightarrow> \<not> (truthy v \<and> contains_pattern tok (to_string v))"
proof (cases "truthy v \<and> contains_pattern tok (to_string v)")
  case True
  then have "to_string v \<noteq> []" by (simp add: truthy_to_string)
  then have "(0::rat) < of_nat (length (tok_string tok)) / of_nat (length (to_string v))"
    using assms by simp
  then have "0 < scoreValue v tok"
    using True by (simp add: scoreValue_eq add_pos_nonneg)
  then show ?thesis using True by simp
next
  case False
  then have "scoreValue v tok = 0" by (subst scoreValue_eq) (simp only: if_False)
  then show ?thesis using False by blast
qed

lemma sum_list_nonneg_zero_iff:
  fixes xs :: "rat list"
  assumes "\<forall>x \<in> set xs. 0 \<le> x"
  shows "sum_list xs = 0 \<longleftrightarrow> (\<forall>x \<in> set xs. x = 0)"
  using assms by (induction xs) (auto simp: add_nonneg_eq_0_iff sum_list_nonneg)

lemma scoreObject_zero_iff:
  assumes "tok_string tok \<noteq> []"
  shows "scoreObject flds tok data = 0 \<longleftrightarrow>
          (\<forall>f \<in> set flds. \<not> (truthy (getattr data f) \<and> contains_pattern tok (to_string (getattr data f))))"
proof -
  consider "flds = []" | f where "flds = [f]" | "2 \<le> length flds"
    by (cases flds; cases "tl flds") auto
  then show ?thesis
  proof cases
    case 1
    then show ?thesis by (simp add: scoreObject_def)
  next
    case 2
    then show ?thesis using scoreValue_zero_iff [OF assms] by (simp add: scoreObject_def)
  next
    case 3
    have "sum_list (map (\<lambda>f. scoreValue (getattr data f) tok) flds) = 0
        \<longleftrightarrow> (\<forall>f \<in> set flds. scoreValue (getattr data f) tok = 0)"
      using sum_list_nonneg_zero_iff [of "map (\<lambda>f. scoreValue (getattr data f) tok) flds"]
      by (auto simp: scoreValue_nonneg)
    then show ?thesis using 3 scoreValue_zero_iff [OF assms] by (simp add: scoreObject_def Let_def)
  qed
qed

lemma words_acc_nonempty: "w \<in> set (words_acc sep cur s) \<Longrightarrow> w \<noteq> []"
  by (induction s arbitrary: cur) (auto split: if_splits)

lemma tokenize_nonempty: "t \<in> set (tokenize d q) \<Longrightarrow> tok_string t \<noteq> []"
proof -
  assume "t \<in> set (tokenize d q)"
  then have "tok_string t \<in> set (map tok_string (tokenize d q))" by simp
  then show ?thesis
    unfolding tokenize_strings words_on_def by (rule words_acc_nonempty)
qed

lemma truthy_field_contains:
  "truthy v \<and> field_contains tok v \<longleftrightarrow> truthy v \<and> contains_pattern tok (to_string v)"
  by (cases v) (auto simp: field_contains_def)

text \<open>
  C2, as amended. For a query of a single token the built-in score of a record is 0
  exactly when no configured field has a truthy value that contains the pattern of
  the token (a field holding the number 0, \<open>false\<close> or the empty string scores 0
  whatever it contains). The score of one field value is 0 unless the value is truthy
  and contains the pattern; then it is the length of the token over the length of the
  value's string form, plus 1/2 when the first match starts at position 0.
\<close>

theorem single_token_score:
  assumes "tokenize d q = [tok]"
  shows "(getScoreFunction (prepareSearch d q opts) data = 0
            \<longleftrightarrow> (\<forall>f \<in> set (o_fields opts).
                   \<not> (truthy (getattr data f) \<and> field_contains tok (getattr data f))))
         \<and> (\<forall>v. scoreValue v tok =
               (if truthy v \<and> field_contains tok v
                then of_nat (length (tok_string tok)) / of_nat (length (to_string v))
                     + (if js_search (tok_regex tok) (to_string v) = 0 then 1 / 2 else 0)
                else 0))
         \<and> (\<forall>s. contains_pattern tok s \<longleftrightarrow>
               (\<exists>pre mid post. s = pre @ mid @ post
                  \<and> list_all2 atom_matches (map (token_atom d) (tok_string tok)) mid))
         \<and> (\<forall>s. js_search (tok_regex tok) s = 0 \<longleftrightarrow>
               (\<exists>mid post. s = mid @ post
                  \<and> list_all2 atom_matches (map (token_atom d) (tok_string tok)) mid))"
proof -
  have mem: "tok \<in> set (tokenize d q)" using assms by simp
  have ne: "tok_string tok \<noteq> []" using mem by (rule tokenize_nonempty)
  have re: "tok_regex tok = token_regex d (tok_string tok)" using mem by (rule tokenize_regex)
  have "getScoreFunction (prepareSearch d q opts) data = scoreObject (o_fields opts) tok data"
    using assms by (simp add: getScoreFunction_def prepareSearch_def)
  then have 1: "getScoreFunction (prepareSearch d q opts) data = 0
            \<longleftrightarrow> (\<forall>f \<in> set (o_fields opts).
                   \<not> (truthy (getattr data f) \<and> field_contains tok (getattr data f)))"
    using scoreObject_zero_iff [OF ne] by (simp add: truthy_field_contains)
  have 2: "\<forall>v. scoreValue v tok =
               (if truthy v \<and> field_contains tok v
                then of_nat (length (tok_string tok)) / of_nat (length (to_string v))
                     + (if js_search (tok_regex tok) (to_string v) = 0 then 1 / 2 else 0)
                else 0)"
    unfolding truthy_field_contains by (rule allI) (rule scoreValue_eq)
  show ?thesis
    using 1 2 contains_pattern_iff [OF re] js_search_start [OF re] by blast
qed

theorem single_token_score_witness:
  "getScoreFunction (prepareSearch False ''ap'' (witness_options [])) [(''text'', Str ''Banana'')] = 0
   \<and> getScoreFunction (prepareSearch False ''ap'' (witness_options [])) [(''text'', Str ''Apple'')] \<noteq> 0
   \<and> scoreValue (Str ''Apple'') \<lparr>tok_string = ''ap'', tok_regex = ''ap''\<rparr> = 9 / 10
   \<and> scoreValue (Str ''Grape'') \<lparr>tok_string = ''ap'', tok_regex = ''ap''\<rparr> = 2 / 5"
proof -
  define tok where "tok = \<lparr>tok_string = ''ap'', tok_regex = ''ap''\<rparr>"
  have t: "tokenize False ''ap'' = [tok]" unfolding tok_def by code_simp
  note w = single_token_score [OF t, of "witness_options []"]
  have f: "o_fields (witness_options []) = [''text'']" by (simp add: witness_options_def)
  have b: "\<not> field_contains tok (Str ''Banana'')" unfolding tok_def by code_simp
  have a: "field_contains tok (Str ''Apple'')" "js_search (tok_regex tok) ''Apple'' = 0"
    unfolding tok_def by code_simp+
  have g: "field_contains tok (Str ''Grape'')" "js_search (tok_regex tok) ''Grape'' \<noteq> 0"
    unfolding tok_def by code_simp+
  have 1: "getScoreFunction (prepareSearch False ''ap'' (witness_options [])) [(''text'', Str ''Banana'')] = 0"
    using w [of "[(''text'', Str ''Banana'')]"] f b by (simp add: getattr_def)
  have 2: "getScoreFunction (prepareSearch False ''ap'' (witness_options [])) [(''text'', Str ''Apple'')] \<noteq> 0"
    using w [of "[(''text'', Str ''Apple'')]"] f a by (simp add: getattr_def)
  have 3: "scoreValue (Str ''Apple'') tok = 9 / 10"
    using w [of "[]"] a by (simp add: tok_def)
  have 4: "scoreValue (Str ''Grape'') tok = 2 / 5"
    using w [of "[]"] g by (simp add: tok_def)
  show ?thesis using 1 2 3 4 unfolding tok_def by (intro conjI)
qed

text \<open>
  C2 as stated fails for a field that holds the number 0 and the query \<open>0\<close>: the string
  form of the field contains the pattern, and yet the score is 0, because the scorer
  returns 0 for every falsy value before it looks at the pattern.
\<close>

theorem zero_field_counterexample:
  "tokenize False ''0'' = [\<lparr>tok_string = ''0'', tok_regex = ''0''\<rparr>]
   \<and> field_contains \<lparr>tok_string = ''0'', tok_regex = ''0''\<rparr> (getattr [(''text'', Num 0)] ''text'')
   \<and> getScoreFunction (prepareSearch False ''0'' (witness_options [])) [(''text'', Num 0)] = 0"
  by code_simp

section \<open>Frame conditions of the control's methods\<close>

lemma ui_frame_refl [simp]: "ui_frame s s"
  by (simp add: ui_frame_def)

lemma ui_frame_trans: "ui_frame s s' \<Longrightarrow> ui_frame s' s'' \<Longrightarrow> ui_frame s s''"
  unfolding ui_frame_def by (elim conjE) (intro conjI, simp_all, argo)

lemma ui_frame_refresh: "ui_frame s s' \<Longrightarrow> refresh_frame s s'"
  by (simp add: ui_frame_def refresh_frame_def)

lemma refresh_frame_refl [simp]: "refresh_frame s s"
  by (simp add: refresh_frame_def)

lemma refresh_frame_trans: "refresh_frame s s' \<Longrightarrow> refresh_frame s' s'' \<Longrightarrow> refresh_frame s s''"
  unfolding refresh_frame_def by (elim conjE) (intro conjI, simp_all, argo)

lemma ui_frame_trigger: "ui_frame s (trigger e s)"
  by (simp add: ui_frame_def trigger_def)

lemma ui_frame_hideInput: "ui_frame s (hideInput s)"
  by (simp add: ui_frame_def hideInput_def setTextboxValue_def)

lemma ui_frame_showInput: "ui_frame s (showInput s)"
  by (simp add: ui_frame_def showInput_def)

lemma ui_frame_setActiveItem_null: "ui_frame s (setActiveItem_null s)"
  by (simp add: ui_frame_def setActiveItem_null_def showInput_def)

lemma ui_frame_focus: "ui_frame s (focus s)"
  by (simp add: ui_frame_def focus_def)

lemma ui_frame_open: "ui_frame s (open s)"
  by (simp add: ui_frame_def open_def focus_def trigger_def)

lemma ui_frame_updateOriginalInput: "ui_frame s (updateOriginalInput silent s)"
  by (simp add: ui_frame_def updateOriginalInput_def trigger_def)

lemma ui_frame_setCaret_end: "ui_frame s (setCaret (int (length (items s))) s)"
  by (simp add: ui_frame_def setCaret_def Let_def)

lemma isBlurring_hideInput [simp]: "isBlurring (hideInput s) = isBlurring s"
  by (simp add: hideInput_def setTextboxValue_def)

lemma close_blurring:
  assumes "isBlurring s"
  shows "ui_frame s (close s)"
proof -
  define h where "h = (if mode (settings s) = Single \<and> items s \<noteq> [] then hideInput s else s)"
  have c: "close s = (if isOpen s then trigger DropdownClose (h\<lparr>isOpen := False\<rparr>)
                      else h\<lparr>isOpen := False\<rparr>)"
    using assms by (subst close.simps) (simp add: h_def Let_def)
  have "ui_frame s h" by (simp add: h_def ui_frame_hideInput)
  then have "ui_frame s (h\<lparr>isOpen := False\<rparr>)" by (simp add: ui_frame_def)
  then show ?thesis
    unfolding c using ui_frame_trigger ui_frame_trans by presburger
qed

lemma ui_frame_onBlur: "ui_frame s (onBlur s)"
proof (cases "isFocused s")
  case False
  then show ?thesis by (subst onBlur.simps) simp
next
  case True
  define s1 where "s1 = s\<lparr>isFocused := False, ignoreFocus := False, isBlurring := True\<rparr>"
  define s2 where "s2 = close s1"
  define s3 where "s3 = setActiveItem_null s2"
  define s4 where "s4 = setCaret (int (length (items s3))) s3"
  have o: "onBlur s = trigger BlurEvent (s4\<lparr>isBlurring := False\<rparr>)"
    using True by (subst onBlur.simps) (simp add: Let_def s1_def s2_def s3_def s4_def)
  have 1: "ui_frame s s1" by (simp add: s1_def ui_frame_def)
  have 2: "ui_frame s1 s2" unfolding s2_def by (rule close_blurring) (simp add: s1_def)
  have 3: "ui_frame s2 s3" unfolding s3_def by (rule ui_frame_setActiveItem_null)
  have 4: "ui_frame s3 s4" unfolding s4_def by (rule ui_frame_setCaret_end)
  have 5: "ui_frame s4 (s4\<lparr>isBlurring := False\<rparr>)" by (simp add: ui_frame_def)
  have 6: "ui_frame (s4\<lparr>isBlurring := False\<rparr>) (onBlur s)" unfolding o by (rule ui_frame_trigger)
  show ?thesis using 1 2 3 4 5 6 ui_frame_trans by blast
qed

lemma ui_frame_blur: "ui_frame s (blur s)"
  by (subst blur.simps) (rule ui_frame_onBlur)

lemma ui_frame_close: "ui_frame s (close s)"
proof -
  define h where "h = (if mode (settings s) = Single \<and> items s \<noteq> [] then
                 (if \<not> isBlurring (hideInput s) then blur (hideInput s) else hideInput s)
               else s)"
  have c: "close s = (if isOpen s then trigger DropdownClose (h\<lparr>isOpen := False\<rparr>)
                      else h\<lparr>isOpen := False\<rparr>)"
    by (subst close.simps) (simp add: h_def Let_def)
  have "ui_frame s (blur (hideInput s))"
    using ui_frame_hideInput [of s] ui_frame_blur [of "hideInput s"] by (rule ui_frame_trans)
  then have "ui_frame s h"
    by (simp add: h_def ui_frame_hideInput)
  then have "ui_frame s (h\<lparr>isOpen := False\<rparr>)" by (simp add: ui_frame_def)
  then show ?thesis
    unfolding c using ui_frame_trigger ui_frame_trans by presburger
qed


lemma ui_frame_fields:
  assumes "ui_frame s s'"
  shows "settings s' = settings s" "items s' = items s" "options s' = options s"
    "userOptions s' = userOptions s" "loadedSearches s' = loadedSearches s" "loads s' = loads s"
    "loading s' = loading s" "lastQuery s' = lastQuery s" "currentResults s' = currentResults s"
    "dropdown s' = dropdown s" "isSetup s' = isSetup s" "isPending s' = isPending s"
    "isLocked s' = isLocked s" "isDisabled s' = isDisabled s" "loadTimeout s' = loadTimeout s"
  using assms by (simp_all add: ui_frame_def)

lemmas close_fields [simp] = ui_frame_fields [OF ui_frame_close]
lemmas open_fields [simp] = ui_frame_fields [OF ui_frame_open]
lemmas trigger_fields [simp] = ui_frame_fields [OF ui_frame_trigger]
lemmas updateOriginalInput_fields [simp] = ui_frame_fields [OF ui_frame_updateOriginalInput]

lemma refresh_frame_fields:
  assumes "refresh_frame s s'"
  shows "settings s' = settings s" "items s' = items s" "options s' = options s"
    "userOptions s' = userOptions s" "loadedSearches s' = loadedSearches s" "loads s' = loads s"
    "loading s' = loading s" "isSetup s' = isSetup s" "isPending s' = isPending s"
    "isLocked s' = isLocked s" "isDisabled s' = isDisabled s" "loadTimeout s' = loadTimeout s"
  using assms by (simp_all add: refresh_frame_def)

lemma control_search_state:
  "snd (control_search q s) = s\<lparr>lastQuery := Some q, currentResults := Some (fst (control_search q s))\<rparr>"
  by (simp add: control_search_def Let_def)

lemma refreshOptions_unfold:
  "refreshOptions t s =
     (let res = control_search (inputValue s) s;
          s1 = snd res;
          n = (case maxOptions (settings s1) of
                 None \<Rightarrow> int (length (s_items (fst res)))
               | Some m \<Rightarrow> min (int (length (s_items (fst res)))) m);
          s2 = s1\<lparr>dropdown := filter (option_selectable s1)
                  (map r_id (take (nat n) (s_items (fst res))))\<rparr>
      in if n > 0 \<or> (s_items (fst res) = [] \<and> render_no_results (settings s1) \<and> loading s1 = 0
              \<and> inputValue s \<noteq> [])
         then (if t \<and> \<not> isOpen s2 then open s2 else s2)
         else (if t \<and> isOpen s2 then close s2 else s2))"
  unfolding refreshOptions_def Let_def case_prod_beta by simp


lemma if_cases3:
  "(if A then (if B then x else y) else (if C then z else y)) = y
   \<or> (if A then (if B then x else y) else (if C then z else y)) = x
   \<or> (if A then (if B then x else y) else (if C then z else y)) = z"
  by (cases A; cases B; cases C; simp)

lemma refreshOptions_cases:
  "\<exists>s2. refresh_frame s s2 \<and> caretPos s2 = caretPos s
      \<and> lastQuery s2 = Some (inputValue s) \<and> input_value s2 = input_value s
      \<and> (refreshOptions t s = s2 \<or> refreshOptions t s = open s2 \<or> refreshOptions t s = close s2)"
proof -
  define res where "res = control_search (inputValue s) s"
  define s1 where "s1 = snd res"
  define n where "n = (case maxOptions (settings s1) of
      None \<Rightarrow> int (length (s_items (fst res)))
    | Some m \<Rightarrow> min (int (length (s_items (fst res)))) m)"
  define s2 where "s2 = s1\<lparr>dropdown := filter (option_selectable s1)
      (map r_id (take (nat n) (s_items (fst res))))\<rparr>"
  have s1: "s1 = s\<lparr>lastQuery := Some (inputValue s), currentResults := Some (fst res)\<rparr>"
    by (simp add: s1_def res_def control_search_state)
  have u: "refreshOptions t s =
     (if n > 0 \<or> (s_items (fst res) = [] \<and> render_no_results (settings s1) \<and> loading s1 = 0
              \<and> inputValue s \<noteq> [])
      then (if t \<and> \<not> isOpen s2 then open s2 else s2)
      else (if t \<and> isOpen s2 then close s2 else s2))"
    by (simp only: refreshOptions_unfold Let_def res_def s1_def n_def s2_def)
  have c: "refreshOptions t s = s2 \<or> refreshOptions t s = open s2 \<or> refreshOptions t s = close s2"
    unfolding u by (rule if_cases3)
  have f: "refresh_frame s s2" "caretPos s2 = caretPos s"
    "lastQuery s2 = Some (inputValue s)" "input_value s2 = input_value s"
    unfolding s2_def s1 refresh_frame_def by simp_all
  show ?thesis using f c by blast
qed

lemma refresh_frame_refreshOptions: "refresh_frame s (refreshOptions t s)"
proof -
  obtain s2 where s2: "refresh_frame s s2"
    "refreshOptions t s = s2 \<or> refreshOptions t s = open s2 \<or> refreshOptions t s = close s2"
    using refreshOptions_cases [of s t] by blast
  have "refresh_frame s2 (open s2)" "refresh_frame s2 (close s2)"
    by (simp_all add: ui_frame_refresh ui_frame_open ui_frame_close)
  then show ?thesis using s2 refresh_frame_trans by metis
qed

lemma lastQuery_refreshOptions: "lastQuery (refreshOptions t s) = Some (inputValue s)"
proof -
  obtain s2 where s2: "lastQuery s2 = Some (inputValue s)"
    "refreshOptions t s = s2 \<or> refreshOptions t s = open s2 \<or> refreshOptions t s = close s2"
    using refreshOptions_cases [of s t] by blast
  then show ?thesis by (elim disjE) simp_all
qed

lemmas refreshOptions_fields [simp] = refresh_frame_fields [OF refresh_frame_refreshOptions]

lemma caret_ok_setCaret: "caret_ok (setCaret i s)"
  by (simp add: caret_ok_def setCaret_def Let_def)

lemma caret_ok_refresh_frame: "refresh_frame s s' \<Longrightarrow> caret_ok s \<Longrightarrow> caret_ok s'"
  by (auto simp: refresh_frame_def caret_ok_def)

lemma caret_ok_ui_frame: "ui_frame s s' \<Longrightarrow> caret_ok s \<Longrightarrow> caret_ok s'"
  by (auto simp: ui_frame_def caret_ok_def)

text \<open>What \<open>clear\<close> does to a non-empty selection.\<close>

lemma clear_empty: "items s = [] \<Longrightarrow> clear silent s = s"
  by (simp add: clear_def)

lemma clear_nonempty:
  assumes "items s \<noteq> []"
  shows "items (clear silent s) = []" "caretPos (clear silent s) = 0"
    "lastQuery (clear silent s) = None" "settings (clear silent s) = settings s"
    "options (clear silent s) = options s" "userOptions (clear silent s) = userOptions s"
    "loadedSearches (clear silent s) = loadedSearches s" "loads (clear silent s) = loads s"
    "isSetup (clear silent s) = isSetup s" "isPending (clear silent s) = isPending s"
    "input_value (clear silent s) = input_value s" "dropdown (clear silent s) = dropdown s"
    "isFocused (clear silent s) = isFocused s" "loading (clear silent s) = loading s"
  using assms
  by (simp_all add: clear_def Let_def trigger_def showInput_def updateOriginalInput_def
      setActiveItem_null_def setCaret_def)

lemma clear_fields:
  "settings (clear silent s) = settings s" "options (clear silent s) = options s"
  "userOptions (clear silent s) = userOptions s" "loadedSearches (clear silent s) = loadedSearches s"
  "loads (clear silent s) = loads s" "isSetup (clear silent s) = isSetup s"
  "isPending (clear silent s) = isPending s" "input_value (clear silent s) = input_value s"
  "dropdown (clear silent s) = dropdown s" "isFocused (clear silent s) = isFocused s"
  "loading (clear silent s) = loading s" "items (clear silent s) = []"
  by (cases "items s = []"; simp add: clear_empty clear_nonempty)+

lemma caret_ok_clear: "caret_ok s \<Longrightarrow> caret_ok (clear silent s)"
  by (cases "items s = []") (simp_all add: clear_empty clear_nonempty caret_ok_def)


subsection \<open>Adding an item\<close>

lemma length_splice_insert [simp]: "length (splice_insert i x xs) = Suc (length xs)"
  by (simp add: splice_insert_def Let_def)

lemma splice_insert_Nil [simp]: "splice_insert i x [] = [x]"
  by (simp add: splice_insert_def)

lemma setCaret_fields [simp]:
  "settings (setCaret i s) = settings s" "items (setCaret i s) = items s"
  "options (setCaret i s) = options s" "userOptions (setCaret i s) = userOptions s"
  "loadedSearches (setCaret i s) = loadedSearches s" "loads (setCaret i s) = loads s"
  "loading (setCaret i s) = loading s" "lastQuery (setCaret i s) = lastQuery s"
  "isSetup (setCaret i s) = isSetup s" "isPending (setCaret i s) = isPending s"
  "input_value (setCaret i s) = input_value s" "events (setCaret i s) = events s"
  "dropdown (setCaret i s) = dropdown s" "isFocused (setCaret i s) = isFocused s"
  by (simp_all add: setCaret_def Let_def)

lemma insertAtCaret_fields [simp]:
  "settings (insertAtCaret s) = settings s" "items (insertAtCaret s) = items s"
  "options (insertAtCaret s) = options s" "userOptions (insertAtCaret s) = userOptions s"
  "loadedSearches (insertAtCaret s) = loadedSearches s" "loads (insertAtCaret s) = loads s"
  "loading (insertAtCaret s) = loading s" "lastQuery (insertAtCaret s) = lastQuery s"
  "isSetup (insertAtCaret s) = isSetup s" "isPending (insertAtCaret s) = isPending s"
  "input_value (insertAtCaret s) = input_value s" "events (insertAtCaret s) = events s"
  by (simp_all add: insertAtCaret_def Let_def)

lemma caret_ok_insertAtCaret: "caret_ok (insertAtCaret s)"
  by (simp add: insertAtCaret_def Let_def caret_ok_setCaret)

text \<open>
  The states that \<open>addItem_insert\<close> goes through after the insertion, from the state
  \<open>s4\<close> with the item inserted and the caret moved.
\<close>

lemma addItem_insert_tail:
  assumes "s4 = insertAtCaret (s\<lparr>items := splice_insert (caretPos s) v (items s)\<rparr>)"
  shows "refresh_frame s4 (addItem_insert v sl m s)"
    and "isSetup s \<Longrightarrow> \<not> isPending s \<Longrightarrow> lastQuery (addItem_insert v sl m s) = Some (inputValue s)"
proof -
  define s5 where "s5 = (if \<not> isPending s4 then refreshOptions (isFocused s4 \<and> m \<noteq> Single) s4 else s4)"
  define s6 where "s6 = (if dropdown s4 = [] \<or> isFull s5 then close s5 else s5)"
  define s7 where "s7 = trigger (ItemAdd v) s6"
  define s8 where "s8 = (if \<not> isPending s7 then updateOriginalInput sl s7 else s7)"
  have u: "addItem_insert v sl m s = (if \<not> isSetup s4 then s4 else s8)"
    by (simp only: addItem_insert_def Let_def assms s5_def s6_def s7_def s8_def)
  have 5: "refresh_frame s4 s5" by (simp add: s5_def refresh_frame_refreshOptions)
  have 6: "ui_frame s5 s6" by (simp add: s6_def ui_frame_close)
  have 7: "ui_frame s6 s7" by (simp add: s7_def ui_frame_trigger)
  have 8: "ui_frame s7 s8" by (simp add: s8_def ui_frame_updateOriginalInput)
  have 58: "refresh_frame s4 s8"
    using 5 6 7 8 by (meson refresh_frame_trans ui_frame_refresh)
  show "refresh_frame s4 (addItem_insert v sl m s)"
    unfolding u using 58 by simp
  show "lastQuery (addItem_insert v sl m s) = Some (inputValue s)" if "isSetup s" "\<not> isPending s"
  proof -
    have i: "isSetup s4" "\<not> isPending s4" "input_value s4 = input_value s"
      using that by (simp_all add: assms)
    then have "lastQuery s5 = Some (inputValue s)"
      by (simp add: s5_def lastQuery_refreshOptions inputValue_def)
    then have "lastQuery s8 = Some (inputValue s)"
      using ui_frame_fields(8) [OF 6] ui_frame_fields(8) [OF 7] ui_frame_fields(8) [OF 8] by simp
    then show ?thesis unfolding u using i by simp
  qed
qed

lemma addItem_insert_fields [simp]:
  "settings (addItem_insert v sl m s) = settings s"
  "items (addItem_insert v sl m s) = splice_insert (caretPos s) v (items s)"
  "options (addItem_insert v sl m s) = options s"
  "userOptions (addItem_insert v sl m s) = userOptions s"
  "loadedSearches (addItem_insert v sl m s) = loadedSearches s"
  "loads (addItem_insert v sl m s) = loads s"
  "isSetup (addItem_insert v sl m s) = isSetup s"
  "isPending (addItem_insert v sl m s) = isPending s"
  using refresh_frame_fields [OF addItem_insert_tail(1) [where v=v and sl=sl and m=m and s=s, OF refl]]
  by simp_all

lemma caret_ok_addItem_insert: "caret_ok (addItem_insert v sl m s)"
  using addItem_insert_tail(1) [where v=v and sl=sl and m=m and s=s, OF refl] caret_ok_insertAtCaret caret_ok_refresh_frame
  by blast


lemma if_cases_add:
  "(if A then x else if B then x else if C then y else z) = x
   \<or> (if A then x else if B then x else if C then y else z) = y
   \<or> (if A then x else if B then x else if C then y else z) = z"
  by (cases A; cases B; cases C; simp)

lemma addItem_body_unfold:
  "addItem_body v sl s =
     (let s1 = (if v \<in> set (items s) \<and> mode (settings s) = Single then close s else s);
          s2 = (if mode (settings s) = Single then clear sl s1 else s1)
      in if v \<in> set (items s) \<and> (mode (settings s) = Single \<or> \<not> duplicates (settings s)) then s1
         else if map_of (options s) v = None then s1
         else if mode (settings s) = Multi \<and> isFull s2 then s2
         else addItem_insert v sl (mode (settings s)) s2)"
  unfolding addItem_body_def Let_def by simp

lemma addItem_body_cases:
  "\<exists>s1 s2. ui_frame s s1 \<and> (s2 = s1 \<or> s2 = clear sl s1)
     \<and> (addItem_body v sl s = s1 \<or> addItem_body v sl s = s2
        \<or> addItem_body v sl s = addItem_insert v sl (mode (settings s)) s2)"
proof -
  define s1 where "s1 = (if v \<in> set (items s) \<and> mode (settings s) = Single then close s else s)"
  define s2 where "s2 = (if mode (settings s) = Single then clear sl s1 else s1)"
  have u: "addItem_body v sl s =
     (if v \<in> set (items s) \<and> (mode (settings s) = Single \<or> \<not> duplicates (settings s)) then s1
      else if map_of (options s) v = None then s1
      else if mode (settings s) = Multi \<and> isFull s2 then s2
      else addItem_insert v sl (mode (settings s)) s2)"
    by (simp only: addItem_body_unfold Let_def s1_def s2_def)
  have 1: "ui_frame s s1" by (simp add: s1_def ui_frame_close)
  have 2: "s2 = s1 \<or> s2 = clear sl s1" by (simp add: s2_def)
  have 3: "addItem_body v sl s = s1 \<or> addItem_body v sl s = s2
        \<or> addItem_body v sl s = addItem_insert v sl (mode (settings s)) s2"
    unfolding u by (rule if_cases_add)
  show ?thesis using 1 2 3 by blast
qed

lemma clear_or_fields:
  assumes "s2 = s1 \<or> s2 = clear sl s1"
  shows "settings s2 = settings s1" "options s2 = options s1" "userOptions s2 = userOptions s1"
    "loadedSearches s2 = loadedSearches s1" "loads s2 = loads s1" "isSetup s2 = isSetup s1"
    "isPending s2 = isPending s1"
proof -
  have "settings s2 = settings s1 \<and> options s2 = options s1 \<and> userOptions s2 = userOptions s1
    \<and> loadedSearches s2 = loadedSearches s1 \<and> loads s2 = loads s1 \<and> isSetup s2 = isSetup s1
    \<and> isPending s2 = isPending s1"
    using assms by (elim disjE) (simp_all add: clear_fields)
  then show "settings s2 = settings s1" "options s2 = options s1" "userOptions s2 = userOptions s1"
    "loadedSearches s2 = loadedSearches s1" "loads s2 = loads s1" "isSetup s2 = isSetup s1"
    "isPending s2 = isPending s1" by simp_all
qed

lemma addItem_body_fields [simp]:
  "settings (addItem_body v sl s) = settings s"
  "options (addItem_body v sl s) = options s"
  "userOptions (addItem_body v sl s) = userOptions s"
  "loadedSearches (addItem_body v sl s) = loadedSearches s"
  "loads (addItem_body v sl s) = loads s"
  "isSetup (addItem_body v sl s) = isSetup s"
  "isPending (addItem_body v sl s) = isPending s"
proof -
  obtain s1 s2 where c: "ui_frame s s1" "s2 = s1 \<or> s2 = clear sl s1"
     "addItem_body v sl s = s1 \<or> addItem_body v sl s = s2
        \<or> addItem_body v sl s = addItem_insert v sl (mode (settings s)) s2"
    using addItem_body_cases [of s sl v] by blast
  note f1 = ui_frame_fields [OF c(1)]
  have f2: "settings s2 = settings s" "options s2 = options s" "userOptions s2 = userOptions s"
    "loadedSearches s2 = loadedSearches s" "loads s2 = loads s" "isSetup s2 = isSetup s"
    "isPending s2 = isPending s"
    using clear_or_fields [OF c(2)] f1 by simp_all
  show "settings (addItem_body v sl s) = settings s"
    using c(3) f1 f2 by (elim disjE) simp_all
  show "options (addItem_body v sl s) = options s"
    using c(3) f1 f2 by (elim disjE) simp_all
  show "userOptions (addItem_body v sl s) = userOptions s"
    using c(3) f1 f2 by (elim disjE) simp_all
  show "loadedSearches (addItem_body v sl s) = loadedSearches s"
    using c(3) f1 f2 by (elim disjE) simp_all
  show "loads (addItem_body v sl s) = loads s"
    using c(3) f1 f2 by (elim disjE) simp_all
  show "isSetup (addItem_body v sl s) = isSetup s"
    using c(3) f1 f2 by (elim disjE) simp_all
  show "isPending (addItem_body v sl s) = isPending s"
    using c(3) f1 f2 by (elim disjE) simp_all
qed

lemma caret_ok_addItem_body: "caret_ok s \<Longrightarrow> caret_ok (addItem_body v sl s)"
proof -
  assume ok: "caret_ok s"
  obtain s1 s2 where c: "ui_frame s s1" "s2 = s1 \<or> s2 = clear sl s1"
     "addItem_body v sl s = s1 \<or> addItem_body v sl s = s2
        \<or> addItem_body v sl s = addItem_insert v sl (mode (settings s)) s2"
    using addItem_body_cases [of s sl v] by blast
  have 1: "caret_ok s1" using c(1) ok by (rule caret_ok_ui_frame)
  have 2: "caret_ok s2" using c(2) 1 caret_ok_clear by blast
  show ?thesis using c(3) 1 2 caret_ok_addItem_insert by metis
qed

lemma debounce_events_fields [simp]:
  "settings (debounce_events t f s) = settings (f s)"
  "items (debounce_events t f s) = items (f s)"
  "caretPos (debounce_events t f s) = caretPos (f s)"
  "options (debounce_events t f s) = options (f s)"
  "userOptions (debounce_events t f s) = userOptions (f s)"
  "loadedSearches (debounce_events t f s) = loadedSearches (f s)"
  "loads (debounce_events t f s) = loads (f s)"
  "lastQuery (debounce_events t f s) = lastQuery (f s)"
  "isSetup (debounce_events t f s) = isSetup (f s)"
  "isPending (debounce_events t f s) = isPending (f s)"
  by (simp_all add: debounce_events_def Let_def)

lemma caret_ok_addItem: "caret_ok s \<Longrightarrow> caret_ok (addItem v sl s)"
  using caret_ok_addItem_body [of s v sl] by (simp add: caret_ok_def addItem_def)


subsection \<open>Removing an item\<close>

lemma removeItem_notin: "v \<notin> set (items s) \<Longrightarrow> removeItem v sl s = s"
  by (subst removeItem.simps) simp

text \<open>
  When the option of the removed item stays (options persist, or the item was not
  created by the user), \<open>removeItem\<close> does not call \<open>removeOption\<close>.
\<close>

lemma removeItem_simple:
  assumes "v \<in> set (items s)" "persist (settings s) \<or> v \<notin> userOptions s"
  shows "\<exists>s1 s3. s1 = s\<lparr>items := remove1 v (items s), lastQuery := None\<rparr>
      \<and> (s3 = s1 \<and> \<not> int (index_of v (items s)) < caretPos s \<or> s3 = setCaret (caretPos s - 1) s1)
      \<and> removeItem v sl s = trigger (ItemRemove v) (updateOriginalInput sl s3)"
proof -
  define s1 where "s1 = s\<lparr>items := remove1 v (items s), lastQuery := None\<rparr>"
  define s3 where "s3 = (if int (index_of v (items s)) < caretPos s1 then setCaret (caretPos s1 - 1) s1 else s1)"
  have c: "(\<not> persist (settings s) \<and> v \<in> userOptions s) = False" using assms(2) by blast
  have "removeItem v sl s = trigger (ItemRemove v) (updateOriginalInput sl s3)"
    using assms(1) by (subst removeItem.simps) (simp add: Let_def s1_def s3_def c)
  moreover have "s3 = s1 \<and> \<not> int (index_of v (items s)) < caretPos s \<or> s3 = setCaret (caretPos s - 1) s1"
    by (simp add: s3_def s1_def)
  ultimately show ?thesis using s1_def by blast
qed

lemma index_of_less: "v \<in> set xs \<Longrightarrow> index_of v xs < length xs"
  by (induction xs) auto

lemma removeItem_simple_props:
  assumes "v \<in> set (items s)" "persist (settings s) \<or> v \<notin> userOptions s"
  shows "items (removeItem v sl s) = remove1 v (items s)"
    and "lastQuery (removeItem v sl s) = None"
    and "settings (removeItem v sl s) = settings s"
    and "options (removeItem v sl s) = options s"
    and "userOptions (removeItem v sl s) = userOptions s"
    and "loadedSearches (removeItem v sl s) = loadedSearches s"
    and "loads (removeItem v sl s) = loads s"
    and "0 \<le> caretPos s \<Longrightarrow> caret_ok (removeItem v sl s)"
proof -
  obtain s1 s3 where r: "s1 = s\<lparr>items := remove1 v (items s), lastQuery := None\<rparr>"
      "s3 = s1 \<and> \<not> int (index_of v (items s)) < caretPos s \<or> s3 = setCaret (caretPos s - 1) s1"
      "removeItem v sl s = trigger (ItemRemove v) (updateOriginalInput sl s3)"
    using removeItem_simple [OF assms, of sl] by blast
  have f: "items s3 = remove1 v (items s)" "lastQuery s3 = None" "settings s3 = settings s"
    "options s3 = options s" "userOptions s3 = userOptions s"
    "loadedSearches s3 = loadedSearches s" "loads s3 = loads s"
    using r(2) by (elim disjE conjE; simp add: r(1))+
  show "items (removeItem v sl s) = remove1 v (items s)" by (simp add: r(3) f)
  show "lastQuery (removeItem v sl s) = None" by (simp add: r(3) f)
  show "settings (removeItem v sl s) = settings s" by (simp add: r(3) f)
  show "options (removeItem v sl s) = options s" by (simp add: r(3) f)
  show "userOptions (removeItem v sl s) = userOptions s" by (simp add: r(3) f)
  show "loadedSearches (removeItem v sl s) = loadedSearches s" by (simp add: r(3) f)
  show "loads (removeItem v sl s) = loads s" by (simp add: r(3) f)
  show "caret_ok (removeItem v sl s)" if "0 \<le> caretPos s"
  proof -
    have "caret_ok s3"
      using r(2)
    proof (elim disjE conjE)
      assume "s3 = s1" "\<not> int (index_of v (items s)) < caretPos s"
      then show ?thesis
        using that index_of_less [OF assms(1)] assms(1)
        by (simp add: caret_ok_def r(1) length_remove1)
    next
      assume "s3 = setCaret (caretPos s - 1) s1"
      then show ?thesis by (simp add: caret_ok_setCaret)
    qed
    then have "caret_ok (updateOriginalInput sl s3)"
      using ui_frame_updateOriginalInput caret_ok_ui_frame by blast
    then show ?thesis
      unfolding r(3) using ui_frame_trigger caret_ok_ui_frame by blast
  qed
qed

text \<open>The state in which \<open>removeOption\<close> calls \<open>removeItem\<close>.\<close>

lemma removeOption_unfold:
  "removeOption v sl s = removeItem v sl
     (trigger (OptionRemove v)
        (s\<lparr>userOptions := userOptions s - {v},
           options := filter (\<lambda>(k, data). k \<noteq> v) (options s),
           lastQuery := None\<rparr>))"
  by (subst removeOption.simps) (simp add: Let_def)

lemma removeOption_props:
  "settings (removeOption v sl s) = settings s"
  "loadedSearches (removeOption v sl s) = loadedSearches s"
  "loads (removeOption v sl s) = loads s"
  "lastQuery (removeOption v sl s) = None"
  "length (items (removeOption v sl s)) \<le> length (items s)"
  "set (items (removeOption v sl s)) \<subseteq> set (items s)"
  "options (removeOption v sl s) = filter (\<lambda>(k, data). k \<noteq> v) (options s)"
  "userOptions (removeOption v sl s) = userOptions s - {v}"
  "0 \<le> caretPos s \<Longrightarrow> v \<in> set (items s) \<Longrightarrow> caret_ok (removeOption v sl s)"
  "v \<notin> set (items s) \<Longrightarrow> items (removeOption v sl s) = items s \<and> caretPos (removeOption v sl s) = caretPos s"
  "v \<in> set (items s) \<Longrightarrow> items (removeOption v sl s) = remove1 v (items s)"
proof -
  define s' where "s' = trigger (OptionRemove v)
        (s\<lparr>userOptions := userOptions s - {v},
           options := filter (\<lambda>(k, data). k \<noteq> v) (options s),
           lastQuery := None\<rparr>)"
  have u: "removeOption v sl s = removeItem v sl s'"
    by (simp only: removeOption_unfold s'_def)
  have f: "settings s' = settings s" "loadedSearches s' = loadedSearches s" "loads s' = loads s"
    "lastQuery s' = None" "items s' = items s" "caretPos s' = caretPos s"
    "options s' = filter (\<lambda>(k, data). k \<noteq> v) (options s)"
    "userOptions s' = userOptions s - {v}"
    by (simp_all add: s'_def trigger_def)
  have nu: "persist (settings s') \<or> v \<notin> userOptions s'" by (simp add: f)
  note p = removeItem_simple_props [OF _ nu, of sl]
  show "settings (removeOption v sl s) = settings s"
    unfolding u by (cases "v \<in> set (items s')") (simp_all add: p removeItem_notin f)
  show "loadedSearches (removeOption v sl s) = loadedSearches s"
    unfolding u by (cases "v \<in> set (items s')") (simp_all add: p removeItem_notin f)
  show "loads (removeOption v sl s) = loads s"
    unfolding u by (cases "v \<in> set (items s')") (simp_all add: p removeItem_notin f)
  show "lastQuery (removeOption v sl s) = None"
    unfolding u by (cases "v \<in> set (items s')") (simp_all add: p removeItem_notin f)
  show "length (items (removeOption v sl s)) \<le> length (items s)"
    unfolding u by (cases "v \<in> set (items s')") (simp_all add: p removeItem_notin f length_remove1)
  show "set (items (removeOption v sl s)) \<subseteq> set (items s)"
    unfolding u using set_remove1_subset [of v "items s"]
    by (cases "v \<in> set (items s')") (simp_all add: p removeItem_notin f)
  show "options (removeOption v sl s) = filter (\<lambda>(k, data). k \<noteq> v) (options s)"
    unfolding u by (cases "v \<in> set (items s')") (simp_all add: p removeItem_notin f)
  show "userOptions (removeOption v sl s) = userOptions s - {v}"
    unfolding u by (cases "v \<in> set (items s')") (simp_all add: p removeItem_notin f)
  show "caret_ok (removeOption v sl s)" if "0 \<le> caretPos s" "v \<in> set (items s)"
    unfolding u using that p(8) by (simp add: f)
  show "items (removeOption v sl s) = items s \<and> caretPos (removeOption v sl s) = caretPos s"
    if "v \<notin> set (items s)"
    unfolding u using that by (simp add: removeItem_notin f)
  show "items (removeOption v sl s) = remove1 v (items s)" if "v \<in> set (items s)"
    unfolding u using that by (simp add: p f)
qed


lemma removeItem_unfold:
  assumes "v \<in> set (items s)"
  shows "removeItem v sl s =
     (let s1 = s\<lparr>items := remove1 v (items s), lastQuery := None\<rparr>;
          s2 = (if \<not> persist (settings s) \<and> v \<in> userOptions s then removeOption v sl s1 else s1);
          s3 = (if int (index_of v (items s)) < caretPos s2 then setCaret (caretPos s2 - 1) s2 else s2)
      in trigger (ItemRemove v) (updateOriginalInput sl s3))"
  using assms by (subst removeItem.simps) (simp add: Let_def)

lemma removeItem_props:
  "settings (removeItem v sl s) = settings s"
  "loadedSearches (removeItem v sl s) = loadedSearches s"
  "loads (removeItem v sl s) = loads s"
  "v \<in> set (items s) \<Longrightarrow> lastQuery (removeItem v sl s) = None"
  "length (items (removeItem v sl s)) \<le> length (items s)"
  "caret_ok s \<Longrightarrow> caret_ok (removeItem v sl s)"
proof -
  consider (notin) "v \<notin> set (items s)"
    | (simple) "v \<in> set (items s)" "persist (settings s) \<or> v \<notin> userOptions s"
    | (opt) "v \<in> set (items s)" "\<not> persist (settings s) \<and> v \<in> userOptions s"
    by blast
  then have "settings (removeItem v sl s) = settings s
    \<and> loadedSearches (removeItem v sl s) = loadedSearches s
    \<and> loads (removeItem v sl s) = loads s
    \<and> (v \<in> set (items s) \<longrightarrow> lastQuery (removeItem v sl s) = None)
    \<and> length (items (removeItem v sl s)) \<le> length (items s)
    \<and> (caret_ok s \<longrightarrow> caret_ok (removeItem v sl s))"
  proof cases
    case notin
    then show ?thesis by (simp add: removeItem_notin)
  next
    case simple
    show ?thesis
      using removeItem_simple_props [OF simple, where sl=sl]
      by (simp add: length_remove1 caret_ok_def)
  next
    case opt
    define s1 where "s1 = s\<lparr>items := remove1 v (items s), lastQuery := None\<rparr>"
    define s2 where "s2 = removeOption v sl s1"
    define s3 where "s3 = (if int (index_of v (items s)) < caretPos s2 then setCaret (caretPos s2 - 1) s2 else s2)"
    have cnd: "(\<not> persist (settings s) \<and> v \<in> userOptions s) = True" using opt(2) by simp
    have u: "removeItem v sl s = trigger (ItemRemove v) (updateOriginalInput sl s3)"
      by (simp only: removeItem_unfold [OF opt(1)] Let_def s1_def s2_def s3_def cnd if_True)
    note p = removeOption_props [where v=v and sl=sl and s=s1, folded s2_def]
    have f2: "settings s2 = settings s" "loadedSearches s2 = loadedSearches s" "loads s2 = loads s"
      "lastQuery s2 = None" "length (items s2) \<le> length (items s)"
      using p(1-5) by (simp_all add: s1_def length_remove1 split: if_splits)
    have f3: "settings s3 = settings s" "loadedSearches s3 = loadedSearches s" "loads s3 = loads s"
      "lastQuery s3 = None" "length (items s3) \<le> length (items s)"
      using f2 by (simp_all add: s3_def)
    have c3: "caret_ok s3" if ok: "caret_ok s"
    proof (cases "int (index_of v (items s)) < caretPos s2")
      case True
      then show ?thesis by (simp add: s3_def caret_ok_setCaret)
    next
      case False
      have c0: "0 \<le> caretPos s1" using ok by (simp add: s1_def caret_ok_def)
      show ?thesis
      proof (cases "v \<in> set (items s1)")
        case True
        then have "caret_ok s2" using p(9) c0 by simp
        then show ?thesis using False by (simp add: s3_def)
      next
        case nin: False
        then have e: "items s2 = items s1" "caretPos s2 = caretPos s1" using p(10) by simp_all
        have "caretPos s \<le> int (index_of v (items s))" using False e by (simp add: s1_def)
        then have "caret_ok s2"
          using index_of_less [OF opt(1)] opt(1) ok e
          by (simp add: caret_ok_def s1_def length_remove1)
        then show ?thesis using False by (simp add: s3_def)
      qed
    qed
    have "caret_ok s \<longrightarrow> caret_ok (removeItem v sl s)"
      unfolding u using c3 ui_frame_updateOriginalInput ui_frame_trigger caret_ok_ui_frame by blast
    then show ?thesis unfolding u using f3 by simp
  qed
  then show "settings (removeItem v sl s) = settings s"
    "loadedSearches (removeItem v sl s) = loadedSearches s"
    "loads (removeItem v sl s) = loads s"
    "v \<in> set (items s) \<Longrightarrow> lastQuery (removeItem v sl s) = None"
    "length (items (removeItem v sl s)) \<le> length (items s)"
    "caret_ok s \<Longrightarrow> caret_ok (removeItem v sl s)"
    by simp_all
qed

lemma caret_ok_removeOption: "caret_ok s \<Longrightarrow> caret_ok (removeOption v sl s)"
  using removeOption_props(9,10) [where s=s and v=v and sl=sl]
  by (cases "v \<in> set (items s)") (simp_all add: caret_ok_def)

subsection \<open>The loader and the options\<close>

lemma load_fields [simp]:
  "settings (load q s) = settings s" "items (load q s) = items s"
  "caretPos (load q s) = caretPos s" "options (load q s) = options s"
  "loadedSearches (load q s) = loadedSearches s" "userOptions (load q s) = userOptions s"
  by (simp_all add: load_def settings_load_def loadDebounce_def Let_def)

lemma loadTimer_fields [simp]:
  "settings (loadTimer s) = settings s" "items (loadTimer s) = items s"
  "caretPos (loadTimer s) = caretPos s" "options (loadTimer s) = options s"
  "loadedSearches (loadTimer s) = loadedSearches s" "userOptions (loadTimer s) = userOptions s"
  by (simp_all add: loadTimer_def split: option.splits)

lemma onSearchChange_cases:
  "onSearchChange q s = Inr s \<or> onSearchChange q s = Inl (TypeError, s)
   \<or> onSearchChange q s = Inr (load q (s\<lparr>loadedSearches := assign_true q (loadedSearches s)\<rparr>))"
  by (simp add: onSearchChange_def hasOwnProperty_def split: bool.splits)

lemma onSearchChange_fields [simp]:
  "settings (case onSearchChange q s of Inl (e, s') \<Rightarrow> s' | Inr s' \<Rightarrow> s') = settings s"
  "items (case onSearchChange q s of Inl (e, s') \<Rightarrow> s' | Inr s' \<Rightarrow> s') = items s"
  "caretPos (case onSearchChange q s of Inl (e, s') \<Rightarrow> s' | Inr s' \<Rightarrow> s') = caretPos s"
  "options (case onSearchChange q s of Inl (e, s') \<Rightarrow> s' | Inr s' \<Rightarrow> s') = options s"
  using onSearchChange_cases [of q s] by (elim disjE; simp)+

lemma clearOptions_state_fields [simp]:
  "settings (case clearOptions s of Inl (e, s') \<Rightarrow> s' | Inr s' \<Rightarrow> s') = settings s"
  "items (case clearOptions s of Inl (e, s') \<Rightarrow> s' | Inr s' \<Rightarrow> s') = items s"
  "caretPos (case clearOptions s of Inl (e, s') \<Rightarrow> s' | Inr s' \<Rightarrow> s') = caretPos s"
  "loads (case clearOptions s of Inl (e, s') \<Rightarrow> s' | Inr s' \<Rightarrow> s') = loads s"
  "loadedSearches (case clearOptions s of Inl (e, s') \<Rightarrow> s' | Inr s' \<Rightarrow> s') = {}"
  "userOptions (case clearOptions s of Inl (e, s') \<Rightarrow> s' | Inr s' \<Rightarrow> s') = {}"
  by (simp_all add: clearOptions_def trigger_def Let_def)

lemma settings_step [simp]: "settings (step x s) = settings s"
  by (cases x) (simp_all add: addItem_def removeItem_props removeOption_props clear_fields)

lemma settings_run [simp]: "settings (run xs s) = settings s"
  by (induction xs arbitrary: s) simp_all

lemma caret_ok_step: "caret_ok s \<Longrightarrow> caret_ok (step x s)"
  by (cases x)
     (simp_all add: caret_ok_addItem removeItem_props caret_ok_clear caret_ok_setCaret
        caret_ok_removeOption, simp_all add: caret_ok_def)

lemma caret_ok_run: "caret_ok s \<Longrightarrow> caret_ok (run xs s)"
  by (induction xs arbitrary: s) (simp_all add: caret_ok_step)

subsection \<open>The timer of the loader\<close>

lemma loadTimeout_clear [simp]: "loadTimeout (clear sl s) = loadTimeout s"
  by (cases "items s = []")
     (simp_all add: clear_def Let_def trigger_def showInput_def updateOriginalInput_def
        setActiveItem_null_def setCaret_def)

lemma loadTimeout_setCaret [simp]: "loadTimeout (setCaret i s) = loadTimeout s"
  by (simp add: setCaret_def Let_def)

lemma loadTimeout_insertAtCaret [simp]: "loadTimeout (insertAtCaret s) = loadTimeout s"
  by (simp add: insertAtCaret_def Let_def)

lemma loadTimeout_addItem_insert [simp]:
  "loadTimeout (addItem_insert v sl m s) = loadTimeout s"
  using refresh_frame_fields(12) [OF addItem_insert_tail(1) [where v=v and sl=sl and m=m and s=s, OF refl]]
  by simp

lemma loadTimeout_addItem [simp]: "loadTimeout (addItem v sl s) = loadTimeout s"
proof -
  obtain s1 s2 where c: "ui_frame s s1" "s2 = s1 \<or> s2 = clear sl s1"
     "addItem_body v sl s = s1 \<or> addItem_body v sl s = s2
        \<or> addItem_body v sl s = addItem_insert v sl (mode (settings s)) s2"
    using addItem_body_cases [of s sl v] by blast
  have 1: "loadTimeout s1 = loadTimeout s" by (rule ui_frame_fields(15) [OF c(1)])
  have 2: "loadTimeout s2 = loadTimeout s" using c(2) 1 by (elim disjE) simp_all
  have "loadTimeout (addItem_body v sl s) = loadTimeout s"
    using c(3) 1 2 by (elim disjE) simp_all
  then show ?thesis by (simp add: addItem_def debounce_events_def Let_def)
qed

lemma addItem_loader_fields:
  "loads (addItem v sl s) = loads s" "loadedSearches (addItem v sl s) = loadedSearches s"
  by (simp_all add: addItem_def)

lemma loadTimeout_removeItem_simple:
  assumes "v \<in> set (items s)" "persist (settings s) \<or> v \<notin> userOptions s"
  shows "loadTimeout (removeItem v sl s) = loadTimeout s"
proof -
  obtain s1 s3 where r: "s1 = s\<lparr>items := remove1 v (items s), lastQuery := None\<rparr>"
      "s3 = s1 \<and> \<not> int (index_of v (items s)) < caretPos s \<or> s3 = setCaret (caretPos s - 1) s1"
      "removeItem v sl s = trigger (ItemRemove v) (updateOriginalInput sl s3)"
    using removeItem_simple [OF assms, of sl] by blast
  have "loadTimeout s3 = loadTimeout s"
    using r(2) by (elim disjE conjE) (simp_all add: r(1))
  then show ?thesis
    by (simp add: r(3) ui_frame_fields(15) [OF ui_frame_trigger]
        ui_frame_fields(15) [OF ui_frame_updateOriginalInput])
qed

lemma loadTimeout_removeOption [simp]: "loadTimeout (removeOption v sl s) = loadTimeout s"
proof -
  define s' where "s' = trigger (OptionRemove v)
        (s\<lparr>userOptions := userOptions s - {v},
           options := filter (\<lambda>(k, data). k \<noteq> v) (options s),
           lastQuery := None\<rparr>)"
  have u: "removeOption v sl s = removeItem v sl s'"
    by (simp only: removeOption_unfold s'_def)
  have f: "loadTimeout s' = loadTimeout s" "settings s' = settings s"
    "userOptions s' = userOptions s - {v}"
    by (simp_all add: s'_def trigger_def)
  have nu: "persist (settings s') \<or> v \<notin> userOptions s'" by (simp add: f)
  show ?thesis
    unfolding u
    by (cases "v \<in> set (items s')")
       (simp_all add: loadTimeout_removeItem_simple [OF _ nu] removeItem_notin f)
qed

lemma loadTimeout_removeItem [simp]: "loadTimeout (removeItem v sl s) = loadTimeout s"
proof -
  consider (notin) "v \<notin> set (items s)"
    | (simple) "v \<in> set (items s)" "persist (settings s) \<or> v \<notin> userOptions s"
    | (opt) "v \<in> set (items s)" "\<not> persist (settings s) \<and> v \<in> userOptions s"
    by blast
  then show ?thesis
  proof cases
    case notin
    then show ?thesis by (simp add: removeItem_notin)
  next
    case simple
    then show ?thesis by (rule loadTimeout_removeItem_simple)
  next
    case opt
    define s1 where "s1 = s\<lparr>items := remove1 v (items s), lastQuery := None\<rparr>"
    define s2 where "s2 = removeOption v sl s1"
    define s3 where "s3 = (if int (index_of v (items s)) < caretPos s2 then setCaret (caretPos s2 - 1) s2 else s2)"
    have cnd: "(\<not> persist (settings s) \<and> v \<in> userOptions s) = True" using opt(2) by simp
    have u: "removeItem v sl s = trigger (ItemRemove v) (updateOriginalInput sl s3)"
      by (simp only: removeItem_unfold [OF opt(1)] Let_def s1_def s2_def s3_def cnd if_True)
    have "loadTimeout s2 = loadTimeout s" by (simp add: s2_def s1_def)
    then have "loadTimeout s3 = loadTimeout s" by (simp add: s3_def)
    then show ?thesis
      by (simp add: u ui_frame_fields(15) [OF ui_frame_trigger]
          ui_frame_fields(15) [OF ui_frame_updateOriginalInput])
  qed
qed

lemma loadTimeout_clearOptions [simp]:
  "loadTimeout (case clearOptions s of Inl (e, s') \<Rightarrow> s' | Inr s' \<Rightarrow> s') = loadTimeout s"
  by (simp add: clearOptions_def trigger_def Let_def)

subsection \<open>Calls of the loader\<close>

lemma onSearchChange_recorded:
  assumes "q \<in> loadedSearches s" "''hasOwnProperty'' \<notin> loadedSearches s"
  shows "onSearchChange q s = Inr s"
  using assms by (simp add: onSearchChange_def hasOwnProperty_def)

lemma onSearchChange_shadowed:
  assumes "loader (settings s)" "''hasOwnProperty'' \<in> loadedSearches s"
  shows "onSearchChange q s = Inl (TypeError, s)"
  using assms by (simp add: onSearchChange_def hasOwnProperty_def)

lemma onSearchChange_unseen:
  assumes "loader (settings s)" "q \<notin> loadedSearches s" "''hasOwnProperty'' \<notin> loadedSearches s"
  shows "onSearchChange q s
    = Inr (load q (s\<lparr>loadedSearches := assign_true q (loadedSearches s)\<rparr>))"
  using assms by (simp add: onSearchChange_def hasOwnProperty_def)

lemma onSearchChange_step:
  "step (SearchChange q') s = s
   \<or> q' \<notin> loadedSearches s
     \<and> step (SearchChange q') s = load q' (s\<lparr>loadedSearches := assign_true q' (loadedSearches s)\<rparr>)"
  by (simp add: onSearchChange_def hasOwnProperty_def split: bool.splits)

lemma loader_calls_load:
  assumes "q' \<noteq> q"
  shows "loader_calls q (load q' s) \<le> loader_calls q s"
  using assms
  by (simp add: loader_calls_def load_def settings_load_def loadDebounce_def Let_def)

lemma loader_calls_loadTimer: "loader_calls q (loadTimer s) = loader_calls q s"
  by (simp add: loader_calls_def loadTimer_def split: option.splits)

text \<open>
  Once a query is a key of \<open>loadedSearches\<close>, no operation other than \<open>clearOptions\<close>
  removes it or adds a call of the loader for it.
\<close>

lemma loader_step:
  assumes "q \<in> loadedSearches s" "x \<noteq> ClearOptions"
  shows "q \<in> loadedSearches (step x s)" and "loader_calls q (step x s) \<le> loader_calls q s"
proof -
  have "q \<in> loadedSearches (step x s) \<and> loader_calls q (step x s) \<le> loader_calls q s"
  proof (cases x)
    case (AddItem v sl)
    then show ?thesis using assms(1) by (simp add: addItem_loader_fields loader_calls_def)
  next
    case (RemoveItem v sl)
    then show ?thesis using assms(1) by (simp add: removeItem_props loader_calls_def)
  next
    case (Clear sl)
    then show ?thesis using assms(1) by (simp add: clear_fields loader_calls_def)
  next
    case (SetCaret i)
    then show ?thesis using assms(1) by (simp add: loader_calls_def)
  next
    case (RemoveOption v sl)
    then show ?thesis using assms(1) by (simp add: removeOption_props loader_calls_def)
  next
    case (SearchChange q')
    show ?thesis
      using onSearchChange_step [of q' s]
    proof (elim disjE conjE)
      assume "step (SearchChange q') s = s"
      then show ?thesis using assms(1) SearchChange by simp
    next
      assume n: "q' \<notin> loadedSearches s"
        and e: "step (SearchChange q') s = load q' (s\<lparr>loadedSearches := assign_true q' (loadedSearches s)\<rparr>)"
      have d: "q' \<noteq> q" using n assms(1) by blast
      have "loader_calls q (step (SearchChange q') s)
          \<le> loader_calls q (s\<lparr>loadedSearches := assign_true q' (loadedSearches s)\<rparr>)"
        unfolding e by (rule loader_calls_load [OF d])
      also have "\<dots> = loader_calls q s" by (simp add: loader_calls_def)
      finally have "loader_calls q (step (SearchChange q') s) \<le> loader_calls q s" .
      moreover have "q \<in> loadedSearches (step (SearchChange q') s)"
        unfolding e using assms(1) by (simp add: assign_true_def)
      ultimately show ?thesis using SearchChange by simp
    qed
  next
    case ClearOptions
    then show ?thesis using assms(2) by simp
  next
    case LoadTimer
    then show ?thesis using assms(1) by (simp add: loader_calls_loadTimer)
  qed
  then show "q \<in> loadedSearches (step x s)" and "loader_calls q (step x s) \<le> loader_calls q s"
    by simp_all
qed

lemma loader_run:
  assumes "q \<in> loadedSearches s" "ClearOptions \<notin> set xs"
  shows "q \<in> loadedSearches (run xs s) \<and> loader_calls q (run xs s) \<le> loader_calls q s"
  using assms
proof (induction xs arbitrary: s)
  case Nil
  then show ?case by simp
next
  case (Cons x xs)
  have n: "x \<noteq> ClearOptions" "ClearOptions \<notin> set xs" using Cons.prems(2) by auto
  have 1: "q \<in> loadedSearches (step x s)" by (rule loader_step(1) [OF Cons.prems(1) n(1)])
  have 2: "loader_calls q (step x s) \<le> loader_calls q s"
    by (rule loader_step(2) [OF Cons.prems(1) n(1)])
  show ?case using Cons.IH [OF 1 n(2)] 2 by simp
qed

text \<open>
  For a query other than \<open>__proto__\<close>, from the first call of the handler on: the loader
  is called for it at most once more, whatever is done to the control short of
  \<open>clearOptions\<close>.
\<close>

lemma loader_calls_first:
  "loader_calls q (load q s) \<le> loader_calls q s + 1"
  by (simp add: loader_calls_def load_def settings_load_def loadDebounce_def Let_def)

lemma loader_dedup:
  assumes "loader (settings s)" "q \<noteq> ''__proto__''" "q \<notin> loadedSearches s"
    and "''hasOwnProperty'' \<notin> loadedSearches s" "ClearOptions \<notin> set xs"
  shows "q \<in> loadedSearches (run (SearchChange q # xs) s)"
    and "loader_calls q (run (SearchChange q # xs) s) \<le> loader_calls q s + 1"
proof -
  define s1 where "s1 = load q (s\<lparr>loadedSearches := assign_true q (loadedSearches s)\<rparr>)"
  have e: "step (SearchChange q) s = s1"
    by (simp add: onSearchChange_unseen [OF assms(1,3,4)] s1_def)
  have r: "q \<in> loadedSearches s1" using assms(2) by (simp add: s1_def assign_true_def)
  have "loader_calls q s1 \<le> loader_calls q (s\<lparr>loadedSearches := assign_true q (loadedSearches s)\<rparr>) + 1"
    unfolding s1_def by (rule loader_calls_first)
  then have c: "loader_calls q s1 \<le> loader_calls q s + 1" by (simp add: loader_calls_def)
  note l = loader_run [OF r assms(5)]
  show "q \<in> loadedSearches (run (SearchChange q # xs) s)" using l e by simp
  show "loader_calls q (run (SearchChange q # xs) s) \<le> loader_calls q s + 1"
    using l c e by simp
qed

section \<open>The selection under sequences of operations\<close>

subsection \<open>Single mode\<close>

lemma events_fields [simp]:
  "caretPos (trigger e s) = caretPos s" "input_value (trigger e s) = input_value s"
  "caretPos (updateOriginalInput sl s) = caretPos s"
  "input_value (updateOriginalInput sl s) = input_value s"
  by (simp_all add: trigger_def updateOriginalInput_def)

lemma addItem_body_unknown:
  assumes "v \<notin> option_keys s"
    and "mode (settings s) = Single \<longrightarrow> v \<notin> set (items s)"
  shows "addItem_body v sl s = s"
proof -
  have n: "map_of (options s) v = None"
    using assms(1) by (simp add: option_keys_def map_of_eq_None_iff)
  have c: "(v \<in> set (items s) \<and> mode (settings s) = Single) = False"
    using assms(2) by blast
  show ?thesis by (simp add: addItem_body_unfold Let_def n c)
qed

lemma addItem_body_single:
  assumes "mode (settings s) = Single"
  shows "v \<in> set (items s) \<Longrightarrow> addItem_body v sl s = close s"
    and "v \<notin> set (items s) \<Longrightarrow> map_of (options s) v = None \<Longrightarrow> addItem_body v sl s = s"
    and "v \<notin> set (items s) \<Longrightarrow> map_of (options s) v \<noteq> None \<Longrightarrow>
           addItem_body v sl s = addItem_insert v sl Single (clear sl s)"
proof -
  show "v \<in> set (items s) \<Longrightarrow> addItem_body v sl s = close s"
    using assms by (simp add: addItem_body_unfold Let_def)
  show "v \<notin> set (items s) \<Longrightarrow> map_of (options s) v = None \<Longrightarrow> addItem_body v sl s = s"
    using assms by (simp add: addItem_body_unfold Let_def)
  show "addItem_body v sl s = addItem_insert v sl Single (clear sl s)"
    if a: "v \<notin> set (items s)" and b: "map_of (options s) v \<noteq> None"
  proof -
    have c: "(map_of (options s) v = None) = False" using b by simp
    show ?thesis using assms a by (simp add: addItem_body_unfold Let_def c)
  qed
qed

lemma items_addItem_single:
  assumes "mode (settings s) = Single" "length (items s) \<le> 1"
  shows "length (items (addItem v sl s)) \<le> 1"
    and "v \<in> option_keys s \<Longrightarrow> items (addItem v sl s) = [v]"
proof -
  have one: "items s = [v]" if "v \<in> set (items s)"
    using that assms(2) by (cases "items s") auto
  have k: "map_of (options s) v \<noteq> None" if "v \<in> option_keys s"
    using that by (simp add: option_keys_def map_of_eq_None_iff)
  show "length (items (addItem v sl s)) \<le> 1"
  proof (cases "v \<in> set (items s)")
    case True
    then show ?thesis using assms by (simp add: addItem_def addItem_body_single(1))
  next
    case False
    then show ?thesis
      using assms
      by (cases "map_of (options s) v = None")
         (simp_all add: addItem_def addItem_body_single(2,3) clear_fields)
  qed
  show "items (addItem v sl s) = [v]" if "v \<in> option_keys s"
  proof (cases "v \<in> set (items s)")
    case True
    then show ?thesis using assms one by (simp add: addItem_def addItem_body_single(1))
  next
    case False
    then show ?thesis
      using assms k [OF that] by (simp add: addItem_def addItem_body_single(3) clear_fields)
  qed
qed

lemma length_items_step_single:
  assumes "mode (settings s) = Single" "length (items s) \<le> 1"
  shows "length (items (step x s)) \<le> 1"
proof (cases x)
  case (AddItem v sl)
  then show ?thesis using items_addItem_single(1) [OF assms] by simp
next
  case (RemoveItem v sl)
  then show ?thesis using removeItem_props(5) [of v sl s] assms(2) by simp
next
  case (Clear sl)
  then show ?thesis by (simp add: clear_fields)
next
  case (SetCaret i)
  then show ?thesis using assms(2) by simp
next
  case (RemoveOption v sl)
  then show ?thesis using removeOption_props(5) [of v sl s] assms(2) by simp
next
  case (SearchChange q)
  then show ?thesis using assms(2) by simp
next
  case ClearOptions
  then show ?thesis using assms(2) by simp
next
  case LoadTimer
  then show ?thesis using assms(2) by simp
qed

lemma length_items_run_single:
  "mode (settings s) = Single \<Longrightarrow> length (items s) \<le> 1 \<Longrightarrow> length (items (run xs s)) \<le> 1"
proof (induction xs arbitrary: s)
  case Nil
  then show ?case by simp
next
  case (Cons x xs)
  have m: "mode (settings (step x s)) = Single" using Cons.prems(1) by simp
  have l: "length (items (step x s)) \<le> 1"
    by (rule length_items_step_single [OF Cons.prems])
  show ?case using Cons.IH [OF m l] by simp
qed

subsection \<open>The insertion path of \<open>addItem\<close>\<close>

lemma addItem_body_multi:
  assumes "mode (settings s) = Multi"
  shows "v \<in> set (items s) \<and> \<not> duplicates (settings s) \<or> map_of (options s) v = None \<or> isFull s
           \<Longrightarrow> addItem_body v sl s = s"
    and "v \<notin> set (items s) \<or> duplicates (settings s) \<Longrightarrow> map_of (options s) v \<noteq> None \<Longrightarrow> \<not> isFull s
           \<Longrightarrow> addItem_body v sl s = addItem_insert v sl Multi s"
proof -
  show "addItem_body v sl s = s"
    if "v \<in> set (items s) \<and> \<not> duplicates (settings s) \<or> map_of (options s) v = None \<or> isFull s"
    using that assms by (auto simp add: addItem_body_unfold Let_def)
  show "addItem_body v sl s = addItem_insert v sl Multi s"
    if a: "v \<notin> set (items s) \<or> duplicates (settings s)" and b: "map_of (options s) v \<noteq> None"
      and c: "\<not> isFull s"
  proof -
    have 1: "(v \<in> set (items s) \<and> \<not> duplicates (settings s)) = False"
      using a by auto
    have 2: "(map_of (options s) v = None) = False" using b by simp
    have 3: "isFull s = False" using c by simp
    show ?thesis using assms by (simp add: addItem_body_unfold Let_def 1 2 3)
  qed
qed

lemma items_close [simp]: "items (close s) = items s"
  using ui_frame_fields [OF ui_frame_close] by simp

lemma addItem_changes:
  assumes "items (addItem v sl s) \<noteq> items s"
  shows "addItem_body v sl s =
    addItem_insert v sl (mode (settings s)) (if mode (settings s) = Single then clear sl s else s)"
proof (cases "mode (settings s)")
  case Single
  have i: "items (addItem_body v sl s) \<noteq> items s" using assms by (simp add: addItem_def)
  have 1: "v \<notin> set (items s)"
    using i addItem_body_single(1) [OF Single, of v sl] by auto
  have 2: "map_of (options s) v \<noteq> None"
  proof
    assume "map_of (options s) v = None"
    then have "addItem_body v sl s = s" by (rule addItem_body_single(2) [OF Single 1])
    then show False using i by simp
  qed
  show ?thesis using addItem_body_single(3) [OF Single 1 2] Single by simp
next
  case Multi
  have i: "items (addItem_body v sl s) \<noteq> items s" using assms by (simp add: addItem_def)
  have n: "\<not> (v \<in> set (items s) \<and> \<not> duplicates (settings s) \<or> map_of (options s) v = None \<or> isFull s)"
  proof
    assume "v \<in> set (items s) \<and> \<not> duplicates (settings s) \<or> map_of (options s) v = None \<or> isFull s"
    then have "addItem_body v sl s = s" by (rule addItem_body_multi(1) [OF Multi])
    then show False using i by simp
  qed
  show ?thesis using addItem_body_multi(2) [OF Multi, of v sl] n Multi by auto
qed

lemma lastQuery_addItem_changes:
  assumes "items (addItem v sl s) \<noteq> items s" "isSetup s" "\<not> isPending s"
  shows "lastQuery (addItem v sl s) = Some (inputValue s)"
proof -
  define s2 where "s2 = (if mode (settings s) = Single then clear sl s else s)"
  have f: "isSetup s2" "\<not> isPending s2" "inputValue s2 = inputValue s"
    using assms(2,3) by (simp_all add: s2_def clear_fields inputValue_def)
  have "addItem_body v sl s = addItem_insert v sl (mode (settings s)) s2"
    unfolding s2_def by (rule addItem_changes [OF assms(1)])
  then have "lastQuery (addItem v sl s) = lastQuery (addItem_insert v sl (mode (settings s)) s2)"
    by (simp add: addItem_def)
  also have "\<dots> = Some (inputValue s2)"
    using addItem_insert_tail(2) [where v=v and sl=sl and m="mode (settings s)" and s=s2, OF refl] f(1,2)
    by blast
  finally show ?thesis using f(3) by simp
qed

subsection \<open>Movements of the caret\<close>

lemma caretPos_insertAtCaret:
  assumes "0 \<le> caretPos s" "caretPos s < int (length (items s))"
  shows "caretPos s < caretPos (insertAtCaret s)"
  using assms by (simp add: insertAtCaret_def setCaret_def Let_def)

lemma splice_insert_caret:
  assumes "0 \<le> c" "c \<le> int (length xs)"
  shows "splice_insert c x xs = take (nat c) xs @ [x] @ drop (nat c) xs"
  using assms by (simp add: splice_insert_def Let_def)

lemma caret_addItem_multi:
  assumes "caret_ok s" "mode (settings s) = Multi" "items (addItem v sl s) \<noteq> items s"
  shows "items (addItem v sl s) = take (nat (caretPos s)) (items s) @ [v] @ drop (nat (caretPos s)) (items s)"
    and "caretPos s < caretPos (addItem v sl s)"
proof -
  define s3 where "s3 = s\<lparr>items := splice_insert (caretPos s) v (items s)\<rparr>"
  define s4 where "s4 = insertAtCaret s3"
  have b: "addItem_body v sl s = addItem_insert v sl Multi s"
    using addItem_changes [OF assms(3)] assms(2) by simp
  have c: "0 \<le> caretPos s" "caretPos s \<le> int (length (items s))"
    using assms(1) by (simp_all add: caret_ok_def)
  show "items (addItem v sl s) = take (nat (caretPos s)) (items s) @ [v] @ drop (nat (caretPos s)) (items s)"
    using b splice_insert_caret [OF c] by (simp add: addItem_def)
  have l: "length (items s3) = length (items s) + 1"
    by (simp add: s3_def length_splice_insert)
  have 4: "caretPos s < caretPos s4"
    unfolding s4_def using caretPos_insertAtCaret [of s3] c l by (simp add: s3_def)
  have l4: "caretPos s < int (length (items s4))"
    using c l by (simp add: s4_def)
  have "refresh_frame s4 (addItem_insert v sl Multi s)"
    unfolding s4_def s3_def by (rule addItem_insert_tail(1) [OF refl])
  then have "caretPos (addItem_insert v sl Multi s) = caretPos s4
      \<or> caretPos (addItem_insert v sl Multi s) = int (length (items s4))"
    by (simp add: refresh_frame_def)
  then have "caretPos s < caretPos (addItem_insert v sl Multi s)"
    using 4 l4 by auto
  then show "caretPos s < caretPos (addItem v sl s)"
    using b by (simp add: addItem_def)
qed

lemma caret_removeItem_before:
  assumes "caret_ok s" "mode (settings s) = Multi" "\<not> controlInput (settings s)"
    and "persist (settings s) \<or> v \<notin> userOptions s"
    and "v \<in> set (items s)"
  shows "int (index_of v (items s)) < caretPos s \<Longrightarrow> caretPos (removeItem v sl s) = caretPos s - 1"
    and "\<not> int (index_of v (items s)) < caretPos s \<Longrightarrow> caretPos (removeItem v sl s) = caretPos s"
proof -
  define s1 where "s1 = s\<lparr>items := remove1 v (items s), lastQuery := None\<rparr>"
  have c: "(\<not> persist (settings s) \<and> v \<in> userOptions s) = False" using assms(4) by blast
  have l: "length (items s1) = length (items s) - 1"
    using assms(5) by (simp add: s1_def length_remove1)
  have p: "0 < length (items s)" using assms(5) by (cases "items s") auto
  have k: "0 \<le> caretPos s" "caretPos s \<le> int (length (items s))"
    using assms(1) by (simp_all add: caret_ok_def)
  show "caretPos (removeItem v sl s) = caretPos s - 1" if "int (index_of v (items s)) < caretPos s"
  proof -
    have t: "(int (index_of v (items s)) < caretPos s) = True" using that by simp
    have "removeItem v sl s = trigger (ItemRemove v) (updateOriginalInput sl (setCaret (caretPos s - 1) s1))"
      by (simp add: removeItem_unfold [OF assms(5)] Let_def c t s1_def)
    then have "caretPos (removeItem v sl s) = caretPos (setCaret (caretPos s - 1) s1)" by simp
    also have "\<dots> = max 0 (min (int (length (items s1))) (caretPos s - 1))"
      using assms(2,3) by (simp add: setCaret_def Let_def s1_def)
    also have "\<dots> = caretPos s - 1" using that k l p by simp
    finally show ?thesis .
  qed
  show "caretPos (removeItem v sl s) = caretPos s" if "\<not> int (index_of v (items s)) < caretPos s"
  proof -
    have t: "(int (index_of v (items s)) < caretPos s) = False" using that by simp
    have "removeItem v sl s = trigger (ItemRemove v) (updateOriginalInput sl s1)"
      by (simp add: removeItem_unfold [OF assms(5)] Let_def c t s1_def)
    then show ?thesis by (simp add: s1_def)
  qed
qed

lemma caretPos_setCaret:
  "caretPos (setCaret i s) =
     (if mode (settings s) = Single \<or> controlInput (settings s) then int (length (items s))
      else max 0 (min (int (length (items s))) i))"
  by (simp add: setCaret_def Let_def)

subsection \<open>The marker of the last query\<close>

lemma lastQuery_close [simp]: "lastQuery (close s) = lastQuery s"
  using ui_frame_fields [OF ui_frame_close] by simp

lemma lastQuery_addItem_same:
  assumes "items (addItem v sl s) = items s"
  shows "lastQuery (addItem v sl s) = lastQuery s"
proof (cases "mode (settings s)")
  case Single
  show ?thesis
  proof (cases "v \<in> set (items s)")
    case True
    then show ?thesis using addItem_body_single(1) [OF Single] by (simp add: addItem_def)
  next
    case False
    show ?thesis
    proof (cases "map_of (options s) v = None")
      case True
      then show ?thesis using addItem_body_single(2) [OF Single False] by (simp add: addItem_def)
    next
      case n: False
      have "items (addItem v sl s) = [v]"
        using addItem_body_single(3) [OF Single False n] by (simp add: addItem_def clear_fields)
      then show ?thesis using assms False by simp
    qed
  qed
next
  case Multi
  show ?thesis
  proof (cases "v \<in> set (items s) \<and> \<not> duplicates (settings s) \<or> map_of (options s) v = None \<or> isFull s")
    case True
    then show ?thesis using addItem_body_multi(1) [OF Multi] by (simp add: addItem_def)
  next
    case False
    then have "addItem_body v sl s = addItem_insert v sl Multi s"
      using addItem_body_multi(2) [OF Multi, of v sl] by blast
    then have "length (items (addItem v sl s)) = Suc (length (items s))"
      by (simp add: addItem_def)
    then show ?thesis using assms by simp
  qed
qed

subsection \<open>The sample control\<close>

lemma sample_selected_addItem:
  "addItem_body ''b'' False sample_selected = addItem_insert ''b'' False Multi sample_selected"
proof -
  have m: "mode (settings sample_selected) = Multi"
    by (simp add: sample_selected_def sample_control_def sample_settings_def)
  have 1: "''b'' \<notin> set (items sample_selected) \<or> duplicates (settings sample_selected)"
    by (simp add: sample_selected_def)
  have 2: "map_of (options sample_selected) ''b'' \<noteq> None"
    by (simp add: sample_selected_def sample_control_def)
  have 3: "\<not> isFull sample_selected"
    by (simp add: isFull_def sample_selected_def sample_control_def sample_settings_def)
  show ?thesis by (rule addItem_body_multi(2) [OF m 1 2 3])
qed

lemma sample_selected_items:
  "items (addItem ''b'' False sample_selected) = [''a'', ''b'']"
  by (simp add: addItem_def sample_selected_addItem)
     (simp add: sample_selected_def splice_insert_def)

lemma sample_selected_facts:
  "items sample_selected = [''a'']" "caretPos sample_selected = 1"
  "isSetup sample_selected" "\<not> isPending sample_selected"
  "mode (settings sample_selected) = Multi" "\<not> controlInput (settings sample_selected)"
  "persist (settings sample_selected)" "lastQuery sample_selected = Some ''ap''"
  "loadedSearches sample_selected = {''ap''}" "loader (settings sample_selected)"
  "loads sample_selected = []" "caret_ok sample_selected"
  by (simp_all add: sample_selected_def sample_control_def sample_settings_def caret_ok_def)

lemma sample_selected_inputValue: "inputValue sample_selected = ''ap''"
proof -
  have "trim ''ap'' = ''ap''" by code_simp
  then show ?thesis by (simp add: inputValue_def sample_selected_def)
qed

subsection \<open>Selected keys and the option map\<close>

lemma items_removeItem_single:
  assumes "items s = [v]"
  shows "items (removeItem v sl s) = []"
proof -
  define s1 where "s1 = s\<lparr>items := remove1 v (items s), lastQuery := None\<rparr>"
  define s2 where "s2 = (if \<not> persist (settings s) \<and> v \<in> userOptions s then removeOption v sl s1 else s1)"
  define s3 where "s3 = (if int (index_of v (items s)) < caretPos s2 then setCaret (caretPos s2 - 1) s2 else s2)"
  have v: "v \<in> set (items s)" using assms by simp
  have u: "removeItem v sl s = trigger (ItemRemove v) (updateOriginalInput sl s3)"
    by (simp only: removeItem_unfold [OF v] Let_def s1_def s2_def s3_def)
  have 1: "items s1 = []" using assms by (simp add: s1_def)
  have "length (items s2) \<le> length (items s1)"
    using removeOption_props(5) [of v sl s1] by (simp add: s2_def)
  then have 2: "items s2 = []" using 1 by simp
  have 3: "items s3 = []" using 2 by (simp add: s3_def)
  show ?thesis using 3 by (simp add: u)
qed

lemma option_keys_clearOptions:
  "options (case clearOptions s of Inl (e, s') \<Rightarrow> s' | Inr s' \<Rightarrow> s') = options s"
  by (simp add: clearOptions_def trigger_def Let_def)

text \<open>
  In single mode every selected key has an option, whatever is done to the control:
  an item is added for a key with an option only, and \<open>removeOption\<close> removes the item
  of the option.
\<close>

lemma selection_known_step:
  assumes "mode (settings s) = Single" "length (items s) \<le> 1" "set (items s) \<subseteq> option_keys s"
  shows "set (items (step x s)) \<subseteq> option_keys (step x s)"
proof (cases x)
  case (AddItem v sl)
  show ?thesis
  proof (cases "v \<in> option_keys s")
    case True
    then show ?thesis
      using items_addItem_single(2) [OF assms(1,2) True, of sl] AddItem
      by (simp add: option_keys_def addItem_def)
  next
    case False
    then have "addItem_body v sl s = s"
      using addItem_body_unknown [of v s sl] assms(3) by blast
    then show ?thesis using assms(3) AddItem by (simp add: addItem_def option_keys_def)
  qed
next
  case (RemoveItem v sl)
  show ?thesis
  proof (cases "v \<in> set (items s)")
    case True
    then have "items s = [v]" using assms(2) by (cases "items s") auto
    then show ?thesis using RemoveItem by (simp add: items_removeItem_single)
  next
    case False
    then show ?thesis using assms(3) RemoveItem by (simp add: removeItem_notin)
  qed
next
  case (Clear sl)
  then show ?thesis by (simp add: clear_fields)
next
  case (SetCaret i)
  then show ?thesis using assms(3) by (simp add: option_keys_def)
next
  case (RemoveOption v sl)
  show ?thesis
  proof (cases "v \<in> set (items s)")
    case True
    then have "items s = [v]" using assms(2) by (cases "items s") auto
    then show ?thesis using RemoveOption True by (simp add: removeOption_props(11))
  next
    case False
    have "k \<in> option_keys (removeOption v sl s)" if "k \<in> set (items s)" for k
    proof -
      have "k \<noteq> v" using that False by blast
      moreover have "k \<in> option_keys s" using that assms(3) by blast
      ultimately show ?thesis
        by (force simp add: option_keys_def removeOption_props(7))
    qed
    then show ?thesis using RemoveOption removeOption_props(10) [OF False, of sl] by auto
  qed
next
  case (SearchChange q)
  then show ?thesis using assms(3) by (simp add: option_keys_def)
next
  case ClearOptions
  then show ?thesis using assms(3) by (simp add: option_keys_def option_keys_clearOptions)
next
  case LoadTimer
  then show ?thesis using assms(3) by (simp add: option_keys_def)
qed

lemma selection_known_run:
  assumes "mode (settings s) = Single" "length (items s) \<le> 1" "set (items s) \<subseteq> option_keys s"
  shows "set (items (run xs s)) \<subseteq> option_keys (run xs s)"
  using assms
proof (induction xs arbitrary: s)
  case Nil
  then show ?case by simp
next
  case (Cons x xs)
  have m: "mode (settings (step x s)) = Single" using Cons.prems(1) by simp
  have l: "length (items (step x s)) \<le> 1"
    by (rule length_items_step_single [OF Cons.prems(1,2)])
  have k: "set (items (step x s)) \<subseteq> option_keys (step x s)"
    by (rule selection_known_step [OF Cons.prems])
  show ?case using Cons.IH [OF m l k] by simp
qed

section \<open>The claims about the control\<close>

text \<open>
  C3. The marker of the last query is null after a call of \<open>removeItem\<close> that removes an
  item and after a call of \<open>clear\<close> on a selection that is not empty. A call that leaves
  the selection as it was leaves the marker as it was. \<open>addItem\<close> does not reset the
  marker: an insertion into a control that is set up, outside a series of insertions,
  runs the search again and leaves the marker at the trimmed text of the input.
\<close>

theorem last_query_after_update:
  "(v \<in> set (items s) \<longrightarrow> lastQuery (removeItem v silent s) = None)
   \<and> (items s \<noteq> [] \<longrightarrow> lastQuery (clear silent s) = None)
   \<and> (v \<notin> set (items s) \<longrightarrow> removeItem v silent s = s)
   \<and> (items s = [] \<longrightarrow> clear silent s = s)
   \<and> (items (addItem v silent s) = items s \<longrightarrow> lastQuery (addItem v silent s) = lastQuery s)
   \<and> (items (addItem v silent s) \<noteq> items s \<and> isSetup s \<and> \<not> isPending s
        \<longrightarrow> lastQuery (addItem v silent s) = Some (inputValue s))"
  using removeItem_props(4) [of v s silent] clear_nonempty(3) [of s silent]
    removeItem_notin [of v s silent] clear_empty [of s silent]
    lastQuery_addItem_same [of v silent s] lastQuery_addItem_changes [of v silent s]
  by blast

theorem last_query_after_update_witness:
  "lastQuery (removeItem ''a'' False sample_selected) = None
   \<and> lastQuery (clear False sample_selected) = None
   \<and> removeItem ''b'' False sample_selected = sample_selected
   \<and> lastQuery (addItem ''a'' False sample_selected) = Some ''ap''
   \<and> lastQuery (addItem ''b'' False sample_selected) = Some ''ap''"
proof -
  note a = last_query_after_update [of "''a''" sample_selected False]
  note b = last_query_after_update [of "''b''" sample_selected False]
  have 1: "lastQuery (removeItem ''a'' False sample_selected) = None"
    using a by (simp add: sample_selected_facts)
  have 2: "lastQuery (clear False sample_selected) = None"
    using a by (simp add: sample_selected_facts)
  have 3: "removeItem ''b'' False sample_selected = sample_selected"
    using b by (simp add: sample_selected_facts)
  have "addItem_body ''a'' False sample_selected = sample_selected"
    by (rule addItem_body_multi(1))
       (simp_all add: sample_selected_def sample_control_def sample_settings_def)
  then have "items (addItem ''a'' False sample_selected) = items sample_selected"
    by (simp add: addItem_def)
  then have 4: "lastQuery (addItem ''a'' False sample_selected) = Some ''ap''"
    using a by (simp add: sample_selected_facts)
  have "items (addItem ''b'' False sample_selected) \<noteq> items sample_selected"
    by (simp add: sample_selected_items sample_selected_facts)
  then have 5: "lastQuery (addItem ''b'' False sample_selected) = Some ''ap''"
    using b by (simp add: sample_selected_facts sample_selected_inputValue)
  show ?thesis using 1 2 3 4 5 by (intro conjI)
qed

theorem addItem_last_query_counterexample:
  "lastQuery (addItem ''b'' False sample_selected) = Some ''ap''"
proof -
  have "items (addItem ''b'' False sample_selected) \<noteq> items sample_selected"
    by (simp add: sample_selected_items sample_selected_facts)
  then show ?thesis
    using lastQuery_addItem_changes [of "''b''" False sample_selected]
    by (simp add: sample_selected_facts sample_selected_inputValue)
qed


text \<open>
  C4. In single mode a selection of at most one item stays so under every sequence
  of operations, and two calls of \<open>addItem\<close> with different registered values leave
  exactly the second value selected.
\<close>

theorem single_mode_selection:
  assumes "mode (settings s) = Single" and "length (items s) \<le> 1"
  shows "length (items (run xs s)) \<le> 1
    \<and> (v1 \<noteq> v2 \<and> v1 \<in> option_keys s \<and> v2 \<in> option_keys s
        \<longrightarrow> items (addItem v2 silent2 (addItem v1 silent1 s)) = [v2])"
proof -
  have "items (addItem v2 silent2 (addItem v1 silent1 s)) = [v2]" if "v2 \<in> option_keys s"
  proof -
    define s' where "s' = addItem v1 silent1 s"
    have m: "mode (settings s') = Single" using assms(1) by (simp add: s'_def addItem_def)
    have l: "length (items s') \<le> 1"
      unfolding s'_def by (rule items_addItem_single(1) [OF assms])
    have k: "v2 \<in> option_keys s'" using that by (simp add: s'_def option_keys_def addItem_def)
    show ?thesis using items_addItem_single(2) [OF m l k] by (simp add: s'_def)
  qed
  then show ?thesis using length_items_run_single [OF assms] by blast
qed

theorem single_mode_selection_witness:
  "length (items (run [AddItem ''a'' False, AddItem ''b'' False, AddItem ''a'' False,
       RemoveItem ''b'' False] (sample_control Single))) \<le> 1
   \<and> items (addItem ''b'' False (addItem ''a'' False (sample_control Single))) = [''b'']"
proof -
  have m: "mode (settings (sample_control Single)) = Single"
    by (simp add: sample_control_def sample_settings_def)
  have l: "length (items (sample_control Single)) \<le> 1" by (simp add: sample_control_def)
  have k: "''a'' \<in> option_keys (sample_control Single)" "''b'' \<in> option_keys (sample_control Single)"
    by (simp_all add: option_keys_def sample_control_def)
  have d: "''a'' \<noteq> ''b''" by simp
  note w = single_mode_selection [OF m l, of "[AddItem ''a'' False, AddItem ''b'' False,
      AddItem ''a'' False, RemoveItem ''b'' False]" "''a''" "''b''" False False]
  have 1: "length (items (run [AddItem ''a'' False, AddItem ''b'' False, AddItem ''a'' False,
       RemoveItem ''b'' False] (sample_control Single))) \<le> 1"
    using w by blast
  have 2: "items (addItem ''b'' False (addItem ''a'' False (sample_control Single))) = [''b'']"
    using w k d by blast
  show ?thesis using 1 2 by (intro conjI)
qed


text \<open>
  C5. After every sequence of operations on a control whose caret is in range, the
  caret is between 0 and the number of items. \<open>setCaret\<close> clamps its argument into
  this range (in single mode and with an external input it puts the caret behind
  the last item). In multi mode an insertion puts the new item at the caret and
  moves the caret behind it, and the removal of an item before the caret moves the
  caret back by one.
\<close>

theorem caret_in_range:
  assumes "caret_ok s"
  shows "caret_ok (run xs s)
    \<and> caret_ok (setCaret i s)
    \<and> caretPos (setCaret i s) =
        (if mode (settings s) = Single \<or> controlInput (settings s) then int (length (items s))
         else max 0 (min (int (length (items s))) i))
    \<and> (mode (settings s) = Multi \<and> items (addItem v silent s) \<noteq> items s
        \<longrightarrow> items (addItem v silent s)
              = take (nat (caretPos s)) (items s) @ [v] @ drop (nat (caretPos s)) (items s)
            \<and> caretPos s < caretPos (addItem v silent s))
    \<and> (mode (settings s) = Multi \<and> \<not> controlInput (settings s)
         \<and> (persist (settings s) \<or> v \<notin> userOptions s)
         \<and> v \<in> set (items s) \<and> int (index_of v (items s)) < caretPos s
        \<longrightarrow> caretPos (removeItem v silent s) = caretPos s - 1)"
  using caret_ok_run [OF assms, of xs] caret_ok_setCaret [of i s] caretPos_setCaret [of i s]
    caret_addItem_multi [OF assms, of v silent]
    caret_removeItem_before(1) [OF assms, of v silent]
  by blast

theorem caret_in_range_witness:
  "caret_ok (run [AddItem ''b'' False, SetCaret 0, RemoveItem ''a'' True, AddItem ''a'' False,
       SetCaret 5, Clear False] sample_selected)
   \<and> caretPos (setCaret 5 sample_selected) = 1
   \<and> caretPos (setCaret (- 3) sample_selected) = 0
   \<and> 1 < caretPos (addItem ''b'' False sample_selected)
   \<and> caretPos (removeItem ''a'' False sample_selected) = 0"
proof -
  note a = caret_in_range [OF sample_selected_facts(12)]
  have 1: "caret_ok (run [AddItem ''b'' False, SetCaret 0, RemoveItem ''a'' True,
       AddItem ''a'' False, SetCaret 5, Clear False] sample_selected)"
    using a by blast
  have 2: "caretPos (setCaret 5 sample_selected) = 1"
    using a [of Nil 5] by (simp add: sample_selected_facts)
  have 3: "caretPos (setCaret (- 3) sample_selected) = 0"
    using a [of Nil "- 3"] by (simp add: sample_selected_facts)
  have "items (addItem ''b'' False sample_selected) \<noteq> items sample_selected"
    by (simp add: sample_selected_items sample_selected_facts)
  then have 4: "1 < caretPos (addItem ''b'' False sample_selected)"
    using a [of Nil 0 "''b''" False] by (simp add: sample_selected_facts)
  have 5: "caretPos (removeItem ''a'' False sample_selected) = 0"
    using a [of Nil 0 "''a''" False] by (simp add: sample_selected_facts)
  show ?thesis using 1 2 3 4 5 by (intro conjI)
qed


text \<open>
  C8. A key without an option is refused: \<open>addItem\<close> returns the control as it was,
  with the same selection, caret and option map, and with no event added to the
  log. In single mode the key must not be the selected one; there every selected
  key has an option (\<open>selection_known_run\<close>).
\<close>

theorem addItem_unknown_key:
  assumes "v \<notin> option_keys s"
    and "mode (settings s) = Single \<longrightarrow> v \<notin> set (items s)"
  shows "addItem v silent s = s"
proof -
  have "addItem_body v silent s = s"
    by (rule addItem_body_unknown [OF assms])
  then show ?thesis
    by (simp add: addItem_def debounce_events_def first_occurrences_def Let_def)
qed

theorem addItem_unknown_key_witness:
  "addItem ''zz'' False (sample_control Single) = sample_control Single
   \<and> events (addItem ''zz'' False (sample_control Multi)) = []"
proof -
  have k: "''zz'' \<notin> option_keys (sample_control m)" for m
    by (simp add: option_keys_def sample_control_def)
  have i: "''zz'' \<notin> set (items (sample_control m))" for m
    by (simp add: sample_control_def)
  have 1: "addItem ''zz'' False (sample_control Single) = sample_control Single"
    using addItem_unknown_key [of "''zz''" "sample_control Single" False] k i by blast
  have "addItem ''zz'' False (sample_control Multi) = sample_control Multi"
    using addItem_unknown_key [of "''zz''" "sample_control Multi" False] k i by blast
  then have 2: "events (addItem ''zz'' False (sample_control Multi)) = []"
    by (simp add: sample_control_def)
  show ?thesis using 1 2 by (intro conjI)
qed


text \<open>
  C9. The handler \<open>onSearchChange\<close> records a query as a key of the object
  \<open>loadedSearches\<close> and returns early for a key that the object has. For the query
  \<open>__proto__\<close> the assignment adds no key, so every call of the handler with this
  query reaches the loader again: with the default \<open>loadThrottle\<close>, two calls of the
  handler, each followed by the timer, call the loader of the page twice, and
  without a throttle two calls in a row do. \<open>loadedSearches\<close> is empty afterwards.
  The same calls with the query \<open>ab\<close> call the loader once.
\<close>

theorem loader_called_again:
  "loads (run [SearchChange ''__proto__'', LoadTimer, SearchChange ''__proto__'', LoadTimer]
       (sample_control Multi)) = [''__proto__'', ''__proto__'']
   \<and> loadedSearches (run [SearchChange ''__proto__'', LoadTimer, SearchChange ''__proto__'',
       LoadTimer] (sample_control Multi)) = {}
   \<and> loads (run [SearchChange ''__proto__'', SearchChange ''__proto__'']
       ((sample_control Multi)\<lparr>settings := (sample_settings Multi)\<lparr>loadThrottle := None\<rparr>\<rparr>))
       = [''__proto__'', ''__proto__'']
   \<and> loads (run [SearchChange ''ab'', LoadTimer, SearchChange ''ab'', LoadTimer]
       (sample_control Multi)) = [''ab'']"
  by (simp add: onSearchChange_def hasOwnProperty_def assign_true_def load_def settings_load_def
      throttled_def loadDebounce_def loadTimer_def Let_def sample_control_def sample_settings_def)


text \<open>
  C10. \<open>clearOptions\<close> on a control with options: the loop over the options assigns to
  the variable \<open>key\<close>, which is declared nowhere, and the code is in strict mode, so
  the method raises a \<open>ReferenceError\<close> at the first option. The records of the loaded
  queries and of the options created by the user are empty by then; the options are
  all still there, also those that are not selected, and the marker of the last
  query is as it was.
\<close>

theorem clearOptions_raises:
  "clearOptions sample_selected
     = Inl (ReferenceError, sample_selected\<lparr>loadedSearches := {}, userOptions := {}\<rparr>)
   \<and> option_keys (step ClearOptions sample_selected) = {''a'', ''b''}
   \<and> items (step ClearOptions sample_selected) = [''a'']
   \<and> lastQuery (step ClearOptions sample_selected) = Some ''ap''
   \<and> events (step ClearOptions sample_selected) = []"
  by (simp add: clearOptions_def Let_def option_keys_def sample_selected_def sample_control_def)

end
